theory Spec2Isabelle
  imports Main "HOL-Library.AList"
begin


section \<open>Errors (errors.py)\<close>

text \<open>
  The exception classes of \<^verbatim>\<open>errors.py\<close>, followed by the Python built-in exceptions
  that the modelled code paths can raise. Exception messages are not modelled: every
  property below is about which class is raised.
\<close>

datatype error =
    AuthError
  | NotFoundError
  | RateLimitError
  | RemoteServerError
  | NetworkError
  | ParseError
  | PolicyViolationError
  | KeyError
  | IndexError
  | TypeError
  | ValueError
  | ImportError
  | LibraryError

section \<open>Configuration (config.py)\<close>

text \<open>
  The module-level constants of \<^verbatim>\<open>config.py\<close> that the modelled functions read. They
  are computed once from the process environment, so they are parameters here.
\<close>

record config =
  DS_DECRYPT_ENDPOINT :: string
  DS_ATTESTATION_ENDPOINT :: "string option"
  DS_DEFAULT_LIMIT :: int
  MAX_LOCAL_EXPORT_ROWS :: int

section \<open>The outside world\<close>

text \<open>
  The local attestation channel: \<open>ChannelError\<close> stands for any exception inside the
  \<^verbatim>\<open>try\<close> block of \<^verbatim>\<open>fetch_local_attestation_token\<close> (no socket, timeout, a reply that
  is not a JSON object); \<open>TokenReply t\<close> is a JSON object reply whose
  \<^verbatim>\<open>data.get("token")\<close> is \<open>t\<close>.
\<close>

datatype local_outcome = ChannelError | TokenReply "string option"

text \<open>
  The remote verification endpoint: \<open>VerifyError\<close> is any exception of
  \<^verbatim>\<open>urlopen\<close> or of reading the reply; otherwise the reply has a status and a body, and
  the body either fails to be a JSON object (\<open>BadBody\<close>) or is one, with its
  \<^verbatim>\<open>cipher\<close> and \<^verbatim>\<open>token\<close> entries.
\<close>

datatype verify_body = BadBody | CipherReply "string option" "string option"

datatype verify_outcome = VerifyError | VerifyResponded int verify_body

text \<open>
  A JSON object received from the decrypt endpoint: each of the six keys is present with
  a value of the type of the Page Response, or absent. Values are of an arbitrary type
  \<open>'v\<close> of scalars.
\<close>

record 'v response =
  data :: "'v list list option"
  columns :: "string list option"
  row_count :: "int option"
  total_rows :: "int option"
  has_more :: "bool option"
  data_type :: "string option"

text \<open>A response body: text that \<^verbatim>\<open>json.loads\<close> rejects, or a JSON object.\<close>

datatype 'v body = NotJson | Json "'v response"

fun json_loads :: "'v body \<Rightarrow> 'v response option" where
  "json_loads NotJson = None"
| "json_loads (Json r) = Some r"

text \<open>
  What \<^verbatim>\<open>urllib.request.urlopen\<close> does on the decrypt endpoint: it returns a reply with
  a status and a body, raises \<^verbatim>\<open>HTTPError\<close> with a status code, or raises another
  exception (\<^verbatim>\<open>URLError\<close>, a timeout, a reset connection).
\<close>

datatype 'v http_outcome = Responded int "'v body" | HTTPError int | URLError

text \<open>The JSON body of a request to the decrypt endpoint, with the bearer token.\<close>

record request =
  bearer :: string
  dataset_id :: string
  runtime_key :: string
  req_columns :: "string list option"
  req_offset :: int
  req_limit :: int

text \<open>
  The environment of a run: the configuration, and for each external service the outcome
  of its k-th call. The client is deterministic, so every run against real services is a
  run against such sequences.
\<close>

record 'v env =
  cfg :: config
  local_attestor :: "nat \<Rightarrow> local_outcome"
  verifier :: "nat \<Rightarrow> verify_outcome"
  backend :: "nat \<Rightarrow> 'v http_outcome"

text \<open>
  The state of the process: the module global \<^verbatim>\<open>_cached_cipher\<close> and a log of the calls
  made to each external service.
\<close>

record world =
  cached_cipher :: "string option"
  socket_calls :: nat
  verify_calls :: "string list"
  decrypt_calls :: "request list"

section \<open>Attestation (attestation.py)\<close>

definition fetch_local_attestation_token :: "'v env \<Rightarrow> world \<Rightarrow> string option \<times> world" where
  "fetch_local_attestation_token e w =
     ((case local_attestor e (socket_calls w) of
         ChannelError \<Rightarrow> None
       | TokenReply t \<Rightarrow> t),
      w\<lparr>socket_calls := Suc (socket_calls w)\<rparr>)"

text \<open>Python's truth value of an \<^verbatim>\<open>Optional[str]\<close>.\<close>

fun truthy :: "string option \<Rightarrow> bool" where
  "truthy None = False"
| "truthy (Some s) = (s \<noteq> [])"

definition request_attestation_cipher :: "'v env \<Rightarrow> string \<Rightarrow> world \<Rightarrow> string option \<times> world" where
  "request_attestation_cipher e token w =
     (if \<not> truthy (DS_ATTESTATION_ENDPOINT (cfg e)) then (None, w)
      else
        ((case verifier e (length (verify_calls w)) of
            VerifyError \<Rightarrow> None
          | VerifyResponded status b \<Rightarrow>
              if status \<noteq> 200 then None
              else (case b of
                      BadBody \<Rightarrow> None
                    | CipherReply c t \<Rightarrow> if truthy c then c else t)),
         w\<lparr>verify_calls := verify_calls w @ [token]\<rparr>))"

text \<open>
  \<^verbatim>\<open>if not local_token\<close> holds for \<^verbatim>\<open>None\<close> and for the empty string, and
  \<^verbatim>\<open>cipher or ""\<close> is the empty string for both.
\<close>

definition get_attestation_cipher :: "'v env \<Rightarrow> world \<Rightarrow> string \<times> world" where
  "get_attestation_cipher e w =
     (case cached_cipher w of
        Some c \<Rightarrow> (c, w)
      | None \<Rightarrow>
          (case fetch_local_attestation_token e w of
             (local_token, w1) \<Rightarrow>
               (case local_token of
                  None \<Rightarrow> ([], w1\<lparr>cached_cipher := Some []\<rparr>)
                | Some t \<Rightarrow>
                    if t = [] then ([], w1\<lparr>cached_cipher := Some []\<rparr>)
                    else
                      (case request_attestation_cipher e t w1 of
                         (cipher, w2) \<Rightarrow>
                           let c = (case cipher of None \<Rightarrow> []
                                    | Some x \<Rightarrow> if x = [] then [] else x)
                           in (c, w2\<lparr>cached_cipher := Some c\<rparr>)))))"

section \<open>The decrypt endpoint (metadata.py)\<close>

text \<open>
  \<^verbatim>\<open>_request\<close>: what the \<^verbatim>\<open>try\<close> block raises or returns, then the two
  \<^verbatim>\<open>except\<close> clauses. An exception raised inside the block that is not an
  \<^verbatim>\<open>HTTPError\<close> (the block's own \<^verbatim>\<open>raise\<close> statements and a failure of
  \<^verbatim>\<open>json.loads\<close> included) reaches the second clause.
\<close>

datatype raised = RaisedHTTPError int | Raised error | RaisedOther

definition try_block :: "'v http_outcome \<Rightarrow> raised + 'v response" where
  "try_block out =
     (case out of
        HTTPError code \<Rightarrow> Inl (RaisedHTTPError code)
      | URLError \<Rightarrow> Inl RaisedOther
      | Responded status b \<Rightarrow>
          if status = 200 then
            (case json_loads b of None \<Rightarrow> Inl RaisedOther | Some r \<Rightarrow> Inr r)
          else if status = 401 \<or> status = 403 then Inl (Raised AuthError)
          else if status = 404 then Inl (Raised NotFoundError)
          else if status = 429 then Inl (Raised RateLimitError)
          else if 500 \<le> status \<and> status < 600 then Inl (Raised RemoteServerError)
          else Inl (Raised RemoteServerError))"

definition except_clauses :: "raised \<Rightarrow> error" where
  "except_clauses x =
     (case x of
        RaisedHTTPError code \<Rightarrow>
          if code = 401 \<or> code = 403 then AuthError
          else if code = 404 then NotFoundError
          else if code = 429 then RateLimitError
          else if 500 \<le> code \<and> code < 600 then RemoteServerError
          else NetworkError
      | Raised err \<Rightarrow> NetworkError
      | RaisedOther \<Rightarrow> NetworkError)"

definition request :: "'v env \<Rightarrow> request \<Rightarrow> world \<Rightarrow> (error + 'v response) \<times> world" where
  "request e rq w =
     ((case try_block (backend e (length (decrypt_calls w))) of
         Inl x \<Rightarrow> Inl (except_clauses x)
       | Inr r \<Rightarrow> Inr r),
      w\<lparr>decrypt_calls := decrypt_calls w @ [rq]\<rparr>)"

text \<open>The loop over \<^verbatim>\<open>required_keys\<close>, in its order.\<close>

definition validate :: "'v response \<Rightarrow> error + 'v response" where
  "validate r =
     (if data r = None then Inl RemoteServerError
      else if columns r = None then Inl RemoteServerError
      else if row_count r = None then Inl RemoteServerError
      else if total_rows r = None then Inl RemoteServerError
      else if has_more r = None then Inl RemoteServerError
      else if data_type r = None then Inl RemoteServerError
      else Inr r)"

definition decrypt_dataset ::
  "'v env \<Rightarrow> string \<Rightarrow> string \<Rightarrow> string list option \<Rightarrow> int \<Rightarrow> int \<Rightarrow> world
     \<Rightarrow> (error + 'v response) \<times> world" where
  "decrypt_dataset e ds token cols offset limit w =
     (if DS_DECRYPT_ENDPOINT (cfg e) = [] then (Inl NotFoundError, w)
      else
        (case get_attestation_cipher e w of
           (key, w1) \<Rightarrow>
             (case request e
                     \<lparr>bearer = token, dataset_id = ds, runtime_key = key,
                      req_columns = (case cols of None \<Rightarrow> None
                                     | Some cs \<Rightarrow> if cs = [] then None else Some cs),
                      req_offset = offset, req_limit = limit\<rparr> w1 of
                (Inl err, w2) \<Rightarrow> (Inl err, w2)
              | (Inr r, w2) \<Rightarrow> (validate r, w2))))"

section \<open>Paged fetching (downloader.py)\<close>

text \<open>
  A Row Record is a Python \<^verbatim>\<open>dict\<close>: an association list in insertion order, where
  storing under a key already present replaces its value in place.
\<close>

type_synonym 'v row_record = "(string \<times> 'v) list"

text \<open>
  The dict comprehension over \<^verbatim>\<open>enumerate(columns)\<close>, from index \<open>i\<close> on;
  \<^verbatim>\<open>row[i]\<close> raises \<^verbatim>\<open>IndexError\<close> past the end of the row.
\<close>

fun row_dict :: "string list \<Rightarrow> 'v list \<Rightarrow> nat \<Rightarrow> 'v row_record \<Rightarrow> error + 'v row_record" where
  "row_dict [] row i acc = Inr acc"
| "row_dict (col # cols) row i acc =
     (if i < length row then row_dict cols row (Suc i) (AList.update col (row ! i) acc)
      else Inl IndexError)"

fun dict_list :: "string list \<Rightarrow> 'v list list \<Rightarrow> error + 'v row_record list" where
  "dict_list cols [] = Inr []"
| "dict_list cols (row # rows) =
     (case row_dict cols row 0 [] of
        Inl err \<Rightarrow> Inl err
      | Inr d \<Rightarrow>
          (case dict_list cols rows of
             Inl err \<Rightarrow> Inl err
           | Inr ds \<Rightarrow> Inr (d # ds)))"

definition response_to_dict_list :: "'v response \<Rightarrow> error + 'v row_record list" where
  "response_to_dict_list r =
     (case columns r of
        None \<Rightarrow> Inl KeyError
      | Some cols \<Rightarrow>
          (case data r of
             None \<Rightarrow> Inl KeyError
           | Some d \<Rightarrow> dict_list cols d))"

text \<open>
  \<^verbatim>\<open>fetch_all_pages\<close> is a generator. Its state between two resumptions: the arguments,
  the local variables \<^verbatim>\<open>offset\<close> and \<^verbatim>\<open>has_more\<close>, the page being iterated with the
  row records of it not yet yielded (\<open>g_response = None\<close> at the head of the
  \<^verbatim>\<open>while\<close> loop), and whether the generator has returned or raised.
\<close>

record 'v generator =
  g_dataset_id :: string
  g_token :: string
  g_columns :: "string list option"
  g_page_size :: int
  g_offset :: int
  g_has_more :: bool
  g_response :: "'v response option"
  g_pending :: "'v row_record list"
  g_finished :: bool

text \<open>Calling the generator function runs none of its body.\<close>

definition fetch_all_pages ::
  "string \<Rightarrow> string \<Rightarrow> string list option \<Rightarrow> int \<Rightarrow> int \<Rightarrow> 'v generator" where
  "fetch_all_pages ds token cols page_size start_offset =
     \<lparr>g_dataset_id = ds, g_token = token, g_columns = cols, g_page_size = page_size,
      g_offset = start_offset, g_has_more = True, g_response = None, g_pending = [],
      g_finished = False\<rparr>"

datatype 'v signal = Yield "'v row_record" | StopIteration | Raise error

text \<open>
  One stretch of the generator's body: up to the next \<^verbatim>\<open>yield\<close>, return or exception
  (\<open>Some\<close> of it), or once around to the head of the \<^verbatim>\<open>while\<close> loop or into the
  \<^verbatim>\<open>for\<close> loop (\<open>None\<close>: the body goes on).
\<close>

definition resume :: "'v env \<Rightarrow> 'v generator \<Rightarrow> world \<Rightarrow> 'v signal option \<times> 'v generator \<times> world" where
  "resume e g w =
     (if g_finished g then (Some StopIteration, g, w)
      else
        (case g_response g of
           Some r \<Rightarrow>
             (case g_pending g of
                d # ds \<Rightarrow> (Some (Yield d), g\<lparr>g_pending := ds\<rparr>, w)
              | [] \<Rightarrow>
                  (case row_count r of
                     None \<Rightarrow> (Some (Raise KeyError), g\<lparr>g_finished := True\<rparr>, w)
                   | Some n \<Rightarrow>
                       (case has_more r of
                          None \<Rightarrow> (Some (Raise KeyError), g\<lparr>g_finished := True\<rparr>, w)
                        | Some h \<Rightarrow>
                            (None,
                             g\<lparr>g_offset := g_offset g + n, g_has_more := h,
                               g_response := None\<rparr>,
                             w))))
         | None \<Rightarrow>
             if g_has_more g then
               (case decrypt_dataset e (g_dataset_id g) (g_token g) (g_columns g)
                       (g_offset g) (g_page_size g) w of
                  (Inl err, w') \<Rightarrow> (Some (Raise err), g\<lparr>g_finished := True\<rparr>, w')
                | (Inr r, w') \<Rightarrow>
                    (case response_to_dict_list r of
                       Inl err \<Rightarrow> (Some (Raise err), g\<lparr>g_finished := True\<rparr>, w')
                     | Inr ds \<Rightarrow> (None, g\<lparr>g_response := Some r, g_pending := ds\<rparr>, w')))
             else (Some StopIteration, g\<lparr>g_finished := True\<rparr>, w)))"

text \<open>
  \<^verbatim>\<open>next(gen)\<close>: the body runs until it yields, returns or raises. It need not: a
  server that keeps answering empty pages with \<^verbatim>\<open>has_more\<close> set keeps it running, and
  then the value is \<open>None\<close>.
\<close>

partial_function (option) next_item ::
  "'v env \<Rightarrow> 'v generator \<Rightarrow> world \<Rightarrow> ('v signal \<times> 'v generator \<times> world) option" where
  "next_item e g w =
     (case resume e g w of
        (Some s, g', w') \<Rightarrow> Some (s, g', w')
      | (None, g', w') \<Rightarrow> next_item e g' w')"

text \<open>
  Running the generator to its end, as \<^verbatim>\<open>list(fetch_all_pages(...))\<close> does: the rows
  emitted, or the exception raised.
\<close>

partial_function (option) drain ::
  "'v env \<Rightarrow> 'v generator \<Rightarrow> world \<Rightarrow> 'v row_record list
     \<Rightarrow> ((error + 'v row_record list) \<times> 'v generator \<times> world) option" where
  "drain e g w emitted =
     (case next_item e g w of
        None \<Rightarrow> None
      | Some (Yield d, g', w') \<Rightarrow> drain e g' w' (emitted @ [d])
      | Some (StopIteration, g', w') \<Rightarrow> Some (Inr emitted, g', w')
      | Some (Raise err, g', w') \<Rightarrow> Some (Inl err, g', w'))"

text \<open>
  \<^verbatim>\<open>limit and len(all_rows) >= limit\<close>: an absent limit and the limit 0 are both
  false.
\<close>

definition limit_reached :: "int option \<Rightarrow> 'a list \<Rightarrow> bool" where
  "limit_reached limit all_rows =
     (case limit of
        None \<Rightarrow> False
      | Some l \<Rightarrow> l \<noteq> 0 \<and> l \<le> int (length all_rows))"

text \<open>The \<^verbatim>\<open>for\<close> loop of the non-streaming branch.\<close>

partial_function (option) collect ::
  "'v env \<Rightarrow> int option \<Rightarrow> 'v generator \<Rightarrow> world \<Rightarrow> 'v row_record list
     \<Rightarrow> ((error + 'v row_record list) \<times> world) option" where
  "collect e limit g w all_rows =
     (case next_item e g w of
        None \<Rightarrow> None
      | Some (StopIteration, g', w') \<Rightarrow> Some (Inr all_rows, w')
      | Some (Raise err, g', w') \<Rightarrow> Some (Inl err, w')
      | Some (Yield d, g', w') \<Rightarrow>
          if limit_reached limit (all_rows @ [d]) then Some (Inr (all_rows @ [d]), w')
          else collect e limit g' w' (all_rows @ [d]))"

datatype 'v loaded = Dataset "'v row_record list" | IterableDataset "'v generator"

definition page_size_for :: "config \<Rightarrow> int option \<Rightarrow> int" where
  "page_size_for c limit =
     (case limit of
        None \<Rightarrow> DS_DEFAULT_LIMIT c
      | Some l \<Rightarrow> if l \<noteq> 0 \<and> l < DS_DEFAULT_LIMIT c then l else DS_DEFAULT_LIMIT c)"

definition load_dataset_from_api ::
  "'v env \<Rightarrow> string \<Rightarrow> string \<Rightarrow> string list option \<Rightarrow> bool \<Rightarrow> int option \<Rightarrow> int \<Rightarrow> world
     \<Rightarrow> ((error + 'v loaded) \<times> world) option" where
  "load_dataset_from_api e ds token cols streaming limit offset w =
     (if streaming then
        Some (Inr (IterableDataset
                     (fetch_all_pages ds token cols (DS_DEFAULT_LIMIT (cfg e)) offset)), w)
      else
        (case collect e limit
                (fetch_all_pages ds token cols (page_size_for (cfg e) limit) offset) w [] of
           None \<Rightarrow> None
         | Some (Inl err, w') \<Rightarrow> Some (Inl err, w')
         | Some (Inr all_rows, w') \<Rightarrow> Some (Inr (Dataset all_rows), w')))"

section \<open>Export policy (policy.py) and export (api.py)\<close>

definition enforce_export_policy :: "config \<Rightarrow> int option \<Rightarrow> error + unit" where
  "enforce_export_policy c rows =
     (case rows of
        None \<Rightarrow> Inr ()
      | Some n \<Rightarrow> if n > MAX_LOCAL_EXPORT_ROWS c then Inl PolicyViolationError else Inr ())"

text \<open>
  Strings are sequences of characters with codes below 256, and a file is the sequence of its
  bytes. \<^verbatim>\<open>str.lower\<close> on that range maps \<^verbatim>\<open>A-Z\<close> and the upper-case letters of
  Latin-1 (192 to 222 but 215) to the character 32 above.
\<close>

type_synonym bytes = "char list"

type_synonym files = "string \<rightharpoonup> bytes"

definition lower_char :: "char \<Rightarrow> char" where
  "lower_char c =
     (let n = (of_char c :: nat)
      in if (65 \<le> n \<and> n \<le> 90) \<or> (192 \<le> n \<and> n \<le> 222 \<and> n \<noteq> 215) then char_of (n + 32)
         else c)"

definition lower :: "string \<Rightarrow> string" where
  "lower s = map lower_char s"

text \<open>
  The object given to \<^verbatim>\<open>export_data\<close>, as far as the function looks at it: its
  \<^verbatim>\<open>num_rows\<close> attribute if it has one, whether it has each exporter method and what a
  call of it does (\<open>None\<close>: it raises; \<open>Some b\<close>: it writes the bytes \<open>b\<close> to the
  path), and the rows that iterating over it gives (\<open>None\<close>: it is not iterable). A
  pandas frame has the three writers. \<open>pandas\<close> is the \<^verbatim>\<open>DataFrame\<close> constructor, or
  \<open>None\<close> when the import fails.
\<close>

record frame =
  df_to_csv :: "bytes option"
  df_to_json :: "bytes option"
  df_to_parquet :: "bytes option"

record 'r data_object =
  num_rows :: "int option"
  has_to_csv :: bool
  to_csv :: "bytes option"
  has_to_json :: bool
  to_json :: "bytes option"
  has_to_parquet :: bool
  to_parquet :: "bytes option"
  has_to_pandas :: bool
  to_pandas :: "frame option"
  items :: "'r list option"

definition run_writer :: "bytes option \<Rightarrow> string \<Rightarrow> files \<Rightarrow> (error + unit) \<times> files" where
  "run_writer wr path fs =
     (case wr of
        None \<Rightarrow> (Inl LibraryError, fs)
      | Some b \<Rightarrow> (Inr (), fs(path \<mapsto> b)))"

text \<open>The body of \<^verbatim>\<open>export_data\<close> after the policy check.\<close>

definition export_paths ::
  "('r list \<Rightarrow> frame option) option \<Rightarrow> 'r data_object \<Rightarrow> string \<Rightarrow> string \<Rightarrow> files
     \<Rightarrow> (error + unit) \<times> files" where
  "export_paths pandas d format path fs =
     (let fmt = lower format in
      if has_to_csv d \<and> fmt = ''csv'' then run_writer (to_csv d) path fs
      else if has_to_json d \<and> fmt = ''json'' then run_writer (to_json d) path fs
      else if has_to_parquet d \<and> fmt = ''parquet'' then run_writer (to_parquet d) path fs
      else
        (case pandas of
           None \<Rightarrow> (Inl ImportError, fs)
         | Some DataFrame \<Rightarrow>
             (case (if has_to_pandas d then
                      (case to_pandas d of None \<Rightarrow> Inl LibraryError | Some df \<Rightarrow> Inr df)
                    else
                      (case items d of
                         None \<Rightarrow> Inl TypeError
                       | Some rows \<Rightarrow>
                           (case DataFrame rows of
                              None \<Rightarrow> Inl LibraryError
                            | Some df \<Rightarrow> Inr df))) of
                Inl err \<Rightarrow> (Inl err, fs)
              | Inr df \<Rightarrow>
                  if fmt = ''csv'' then run_writer (df_to_csv df) path fs
                  else if fmt = ''json'' then run_writer (df_to_json df) path fs
                  else if fmt = ''parquet'' then run_writer (df_to_parquet df) path fs
                  else (Inl ValueError, fs))))"

definition export_data ::
  "config \<Rightarrow> ('r list \<Rightarrow> frame option) option \<Rightarrow> 'r data_object \<Rightarrow> string \<Rightarrow> string \<Rightarrow> files
     \<Rightarrow> (error + unit) \<times> files" where
  "export_data c pandas d format path fs =
     (case enforce_export_policy c (num_rows d) of
        Inl err \<Rightarrow> (Inl err, fs)
      | Inr u \<Rightarrow> export_paths pandas d format path fs)"

section \<open>Resumable download (resumable.py)\<close>

text \<open>
  The server of a download: what the \<^verbatim>\<open>HEAD\<close> probe does (an exception, or a status
  and the headers in the order received), and what the \<^verbatim>\<open>GET\<close> does given the start of
  the \<^verbatim>\<open>Range\<close> header sent, if one is: an exception of \<^verbatim>\<open>urlopen\<close>, or a status,
  the \<^verbatim>\<open>Content-Length\<close> and the chunks of the body, after which reading ends or
  raises.
\<close>

datatype head_outcome = HeadFailed | HeadOK int "(string \<times> string) list"

datatype stream_end = EndOfBody | ReadFailed

datatype get_outcome = GetFailed | GetOK int "int option" "bytes list" stream_end

record server =
  on_head :: head_outcome
  on_get :: "int option \<Rightarrow> get_outcome"

text \<open>A request as sent: the caller's headers, and for a \<^verbatim>\<open>GET\<close> the \<^verbatim>\<open>Range\<close> start added.\<close>

datatype http_request =
    HEAD string "(string \<times> string) list"
  | GET string "(string \<times> string) list" "int option"

text \<open>Python's \<^verbatim>\<open>sub in s\<close> on strings.\<close>

fun contains :: "'a list \<Rightarrow> 'a list \<Rightarrow> bool" where
  "contains sub [] = (sub = [])"
| "contains sub (c # cs) = (take (length sub) (c # cs) = sub \<or> contains sub cs)"

text \<open>
  \<^verbatim>\<open>_http_head\<close> returns the headers as a dict keyed by the lower-cased names (a later
  header of the same name replaces an earlier one); \<^verbatim>\<open>hdrs.get(name, "")\<close> reads it.
\<close>

definition lowered :: "(string \<times> string) list \<Rightarrow> (string \<times> string) list" where
  "lowered hs = fold (\<lambda>(k, v) acc. AList.update (lower k) v acc) hs []"

definition http_head ::
  "server \<Rightarrow> string \<Rightarrow> (string \<times> string) list
     \<Rightarrow> http_request \<times> (int \<times> (string \<times> string) list) option" where
  "http_head srv url headers =
     (HEAD url headers,
      (case on_head srv of
         HeadFailed \<Rightarrow> None
       | HeadOK status hs \<Rightarrow> Some (status, lowered hs)))"

definition http_get ::
  "server \<Rightarrow> string \<Rightarrow> (string \<times> string) list \<Rightarrow> int option \<Rightarrow> http_request \<times> get_outcome" where
  "http_get srv url headers range_start =
     (let rng = (case range_start of
                   None \<Rightarrow> None
                 | Some n \<Rightarrow> if n > 0 then Some n else None)
      in (GET url headers rng, on_get srv rng))"

definition supports_range :: "(int \<times> (string \<times> string) list) option \<Rightarrow> bool" where
  "supports_range probe =
     (case probe of
        None \<Rightarrow> True
      | Some (status, hdrs) \<Rightarrow>
          contains ''bytes''
            (lower (case map_of hdrs ''accept-ranges'' of None \<Rightarrow> [] | Some v \<Rightarrow> v))
          \<or> status = 200)"

datatype open_mode = AppendBinary | WriteBinary

definition open_file :: "open_mode \<Rightarrow> string \<Rightarrow> files \<Rightarrow> bytes" where
  "open_file mode path fs =
     (case mode of
        WriteBinary \<Rightarrow> []
      | AppendBinary \<Rightarrow> (case fs path of None \<Rightarrow> [] | Some b \<Rightarrow> b))"

definition resumable_download ::
  "server \<Rightarrow> string \<Rightarrow> (string \<times> string) list \<Rightarrow> string \<Rightarrow> files
     \<Rightarrow> (error + string) \<times> files \<times> http_request list" where
  "resumable_download srv url headers dest_path fs =
     (let part_path = dest_path @ ''.part'';
          existing = (case fs part_path of None \<Rightarrow> 0 | Some b \<Rightarrow> int (length b));
          (probe_sent, probe) = http_head srv url headers;
          range_start = (if existing > 0 \<and> supports_range probe then Some existing else None);
          (get_sent, got) = http_get srv url headers range_start;
          sent = [probe_sent, get_sent]
      in case got of
           GetFailed \<Rightarrow> (Inl LibraryError, fs, sent)
         | GetOK status content_length chunks ending \<Rightarrow>
             let mode = (if status = 206 \<and> (case range_start of None \<Rightarrow> False | Some n \<Rightarrow> n \<noteq> 0)
                         then AppendBinary else WriteBinary);
                 written = open_file mode part_path fs @ concat chunks;
                 fs1 = fs(part_path \<mapsto> written)
             in (case ending of
                   ReadFailed \<Rightarrow> (Inl LibraryError, fs1, sent)
                 | EndOfBody \<Rightarrow>
                     let fs2 = (if fs1 dest_path \<noteq> None then fun_upd fs1 dest_path None
                                else fs1);
                         fs3 = fun_upd (fun_upd fs2 dest_path (fs2 part_path)) part_path None
                     in (Inr dest_path, fs3, sent)))"

section \<open>Notions of the specification\<close>

text \<open>
  The invariant of a Page Response: all six keys are present, \<^verbatim>\<open>row_count\<close> is the
  number of rows of \<^verbatim>\<open>data\<close>, and every row is as long as \<^verbatim>\<open>columns\<close>.
\<close>

definition page_invariant :: "'v response \<Rightarrow> bool" where
  "page_invariant r =
     (case data r of
        None \<Rightarrow> False
      | Some d \<Rightarrow>
          (case columns r of
             None \<Rightarrow> False
           | Some cols \<Rightarrow>
               row_count r = Some (int (length d))
               \<and> list_all (\<lambda>row. length row = length cols) d
               \<and> total_rows r \<noteq> None \<and> has_more r \<noteq> None \<and> data_type r \<noteq> None))"

text \<open>The \<^verbatim>\<open>row_count\<close> a page reports.\<close>

definition row_count_of :: "'v response \<Rightarrow> int" where
  "row_count_of r = (case row_count r of None \<Rightarrow> 0 | Some n \<Rightarrow> n)"

text \<open>A JSON object that lacks one of the required keys.\<close>

definition missing_key :: "'v response \<Rightarrow> bool" where
  "missing_key r =
     (data r = None \<or> columns r = None \<or> row_count r = None \<or> total_rows r = None
      \<or> has_more r = None \<or> data_type r = None)"

text \<open>
  The two failures of the resolver, as the next call of each service would have them: no
  local token (the channel fails, or its reply has no token or an empty one), and a failed
  verification (no endpoint configured, an exception, a status other than 200, or a body
  that gives neither a cipher nor a token).
\<close>

definition local_token_unavailable :: "'v env \<Rightarrow> world \<Rightarrow> bool" where
  "local_token_unavailable e w =
     (case local_attestor e (socket_calls w) of
        ChannelError \<Rightarrow> True
      | TokenReply t \<Rightarrow> (case t of None \<Rightarrow> True | Some s \<Rightarrow> s = []))"

definition verification_fails :: "'v env \<Rightarrow> world \<Rightarrow> bool" where
  "verification_fails e w =
     (if truthy (DS_ATTESTATION_ENDPOINT (cfg e)) then
        (case verifier e (length (verify_calls w)) of
           VerifyError \<Rightarrow> True
         | VerifyResponded status b \<Rightarrow>
             if status = 200 then
               (case b of
                  BadBody \<Rightarrow> True
                | CipherReply c t \<Rightarrow> \<not> truthy c \<and> \<not> truthy t)
             else True)
      else True)"

text \<open>
  What the process does after its first call of \<^verbatim>\<open>get_attestation_cipher\<close>: further calls
  of it and calls of \<^verbatim>\<open>decrypt_dataset\<close> (the only caller in the package), in any order.
\<close>

datatype call = GetCipher | DecryptDataset string string "string list option" int int

fun after_call :: "'v env \<Rightarrow> call \<Rightarrow> world \<Rightarrow> world" where
  "after_call e GetCipher w = snd (get_attestation_cipher e w)"
| "after_call e (DecryptDataset ds token cols offset limit) w =
     snd (decrypt_dataset e ds token cols offset limit w)"

definition after_calls :: "'v env \<Rightarrow> call list \<Rightarrow> world \<Rightarrow> world" where
  "after_calls e cs w = fold (after_call e) cs w"

text \<open>
  The bytes of the \<^verbatim>\<open>.part\<close> file of a destination, none when there is no such file,
  and the \<^verbatim>\<open>Accept-Ranges\<close> value as the download reads it from the probe's headers.
\<close>

definition part_bytes :: "files \<Rightarrow> string \<Rightarrow> bytes" where
  "part_bytes fs dest_path = (case fs (dest_path @ ''.part'') of None \<Rightarrow> [] | Some b \<Rightarrow> b)"

definition accept_ranges :: "(string \<times> string) list \<Rightarrow> string" where
  "accept_ranges hs =
     lower (case map_of (lowered hs) ''accept-ranges'' of None \<Rightarrow> [] | Some v \<Rightarrow> v)"

text \<open>
  Range support as the download takes it from the probe: the probe failed, or its
  \<^verbatim>\<open>Accept-Ranges\<close> value contains \<^verbatim>\<open>bytes\<close> in any case of letters, or its status is 200.
\<close>

definition range_indicated :: "server \<Rightarrow> bool" where
  "range_indicated srv =
     (case on_head srv of
        HeadFailed \<Rightarrow> True
      | HeadOK status hs \<Rightarrow> contains ''bytes'' (accept_ranges hs) \<or> status = 200)"

section \<open>Concrete runs\<close>

text \<open>
  A process that has not resolved its cipher, outside a trusted environment, and a backend
  that serves a three-row table in two pages.
\<close>

definition fresh_world :: world where
  "fresh_world = \<lparr>cached_cipher = None, socket_calls = 0, verify_calls = [], decrypt_calls = []\<rparr>"

definition demo_config :: config where
  "demo_config =
     \<lparr>DS_DECRYPT_ENDPOINT = ''https://backend/api/datasets/decrypt'',
      DS_ATTESTATION_ENDPOINT = Some ''http://verifier/attestation/is_confidential'',
      DS_DEFAULT_LIMIT = 1000, MAX_LOCAL_EXPORT_ROWS = 10000\<rparr>"

definition demo_pages :: "nat \<Rightarrow> nat response" where
  "demo_pages k =
     (if k = 0 then
        \<lparr>data = Some [[1, 45], [2, 62]], columns = Some [''patient_id'', ''age''],
         row_count = Some 2, total_rows = Some 3, has_more = Some True,
         data_type = Some ''sample''\<rparr>
      else
        \<lparr>data = Some [[3, 38]], columns = Some [''patient_id'', ''age''],
         row_count = Some 1, total_rows = Some 3, has_more = Some False,
         data_type = Some ''sample''\<rparr>)"

definition demo_env :: "nat env" where
  "demo_env =
     \<lparr>cfg = demo_config, local_attestor = (\<lambda>k. ChannelError), verifier = (\<lambda>k. VerifyError),
      backend = (\<lambda>k. Responded 200 (Json (demo_pages k)))\<rparr>"

text \<open>
  Inside a trusted environment: a verifier that returns a cipher, and one that rejects the
  token.
\<close>

definition attested_env :: "nat env" where
  "attested_env =
     demo_env\<lparr>local_attestor := (\<lambda>k. TokenReply (Some ''local-token'')),
              verifier := (\<lambda>k. VerifyResponded 200 (CipherReply (Some ''cipher-1'') None))\<rparr>"

definition attested_world :: world where
  "attested_world = snd (get_attestation_cipher attested_env fresh_world)"

definition rejected_env :: "nat env" where
  "rejected_env =
     demo_env\<lparr>local_attestor := (\<lambda>k. TokenReply (Some ''local-token'')),
              verifier := (\<lambda>k. VerifyResponded 403 BadBody)\<rparr>"

text \<open>A backend whose every request has the given outcome, and one that answers garbage.\<close>

definition backend_env :: "nat http_outcome \<Rightarrow> nat env" where
  "backend_env out = demo_env\<lparr>backend := (\<lambda>k. out)\<rparr>"

definition garbled_env :: "nat env" where
  "garbled_env = demo_env\<lparr>backend := (\<lambda>k. Responded 200 NotJson)\<rparr>"

text \<open>
  Objects to export: a dataset that knows it has 10001 rows, and a plain list of three
  rows (no \<^verbatim>\<open>num_rows\<close>, no exporter methods); a pandas whose CSV writer writes one
  byte per row.
\<close>

definition big_dataset :: "nat data_object" where
  "big_dataset =
     \<lparr>num_rows = Some 10001,
      has_to_csv = True, to_csv = Some ''a,b'',
      has_to_json = True, to_json = Some ''{}'',
      has_to_parquet = True, to_parquet = Some ''PAR1'',
      has_to_pandas = True, to_pandas = None,
      items = None\<rparr>"

definition plain_rows :: "nat data_object" where
  "plain_rows =
     \<lparr>num_rows = None,
      has_to_csv = False, to_csv = None,
      has_to_json = False, to_json = None,
      has_to_parquet = False, to_parquet = None,
      has_to_pandas = False, to_pandas = None,
      items = Some [1, 2, 3]\<rparr>"

definition demo_pandas :: "nat list \<Rightarrow> frame option" where
  "demo_pandas rows =
     Some \<lparr>df_to_csv = Some (replicate (length rows) CHR ''r''),
           df_to_json = Some ''[]'', df_to_parquet = None\<rparr>"

text \<open>
  Servers: one whose probe answers 200 with no \<^verbatim>\<open>Accept-Ranges\<close> header and that honours
  a range, one that advertises ranges and ignores them, one whose probe fails and whose
  body breaks off; and a three-byte partial download.
\<close>

definition silent_server :: server where
  "silent_server =
     \<lparr>on_head = HeadOK 200 [(''Content-Type'', ''application/octet-stream'')],
      on_get = (\<lambda>rng. case rng of
                  None \<Rightarrow> GetOK 200 (Some 6) [''abc'', ''def''] EndOfBody
                | Some n \<Rightarrow> GetOK 206 (Some 3) [''def''] EndOfBody)\<rparr>"

definition ignoring_server :: server where
  "ignoring_server =
     \<lparr>on_head = HeadOK 200 [(''Accept-Ranges'', ''Bytes'')],
      on_get = (\<lambda>rng. GetOK 200 (Some 6) [''abc'', ''def''] EndOfBody)\<rparr>"

definition breaking_server :: server where
  "breaking_server =
     \<lparr>on_head = HeadFailed,
      on_get = (\<lambda>rng. GetOK 206 None [''de''] ReadFailed)\<rparr>"

definition partial_files :: files where
  "partial_files = [''/tmp/ds.bin.part'' \<mapsto> ''xyz'']"

section \<open>Properties\<close>

subsection \<open>Attestation\<close>

lemma get_attestation_cipher_decrypt_calls:
  "decrypt_calls (snd (get_attestation_cipher e w)) = decrypt_calls w"
  by (simp add: get_attestation_cipher_def fetch_local_attestation_token_def
      request_attestation_cipher_def Let_def split: option.splits prod.splits)

lemma get_attestation_cipher_caches:
  "cached_cipher (snd (get_attestation_cipher e w)) = Some (fst (get_attestation_cipher e w))"
  by (simp add: get_attestation_cipher_def fetch_local_attestation_token_def
      request_attestation_cipher_def Let_def split: option.splits prod.splits)

lemma get_attestation_cipher_cached:
  "cached_cipher w = Some c \<Longrightarrow> get_attestation_cipher e w = (c, w)"
  by (simp add: get_attestation_cipher_def)

text \<open>
  C6. While no cipher is cached: if the local token cannot be obtained, the result is the
  empty string and no request goes to the verification endpoint; if the token is obtained and
  verification fails, the result is the empty string too, and in both cases the empty string
  is what is cached.
\<close>

theorem get_attestation_cipher_empty_on_failure:
  assumes "cached_cipher w = None"
  shows "(local_token_unavailable e w
            \<longrightarrow> fst (get_attestation_cipher e w) = []
               \<and> cached_cipher (snd (get_attestation_cipher e w)) = Some []
               \<and> verify_calls (snd (get_attestation_cipher e w)) = verify_calls w)
       \<and> (\<not> local_token_unavailable e w
              \<and> verification_fails e (snd (fetch_local_attestation_token e w))
            \<longrightarrow> fst (get_attestation_cipher e w) = []
               \<and> cached_cipher (snd (get_attestation_cipher e w)) = Some [])"
  using assms
  by (auto simp: get_attestation_cipher_def local_token_unavailable_def verification_fails_def
      fetch_local_attestation_token_def request_attestation_cipher_def Let_def
      split: option.splits local_outcome.splits verify_outcome.splits verify_body.splits
        if_splits)

theorem get_attestation_cipher_empty_on_failure_witness:
  "fst (get_attestation_cipher demo_env fresh_world) = []
   \<and> verify_calls (snd (get_attestation_cipher demo_env fresh_world)) = []
   \<and> fst (get_attestation_cipher rejected_env fresh_world) = []
   \<and> cached_cipher (snd (get_attestation_cipher rejected_env fresh_world))
       = cached_cipher (snd (get_attestation_cipher demo_env fresh_world))"
proof -
  have c: "cached_cipher fresh_world = None" by (simp add: fresh_world_def)
  have a: "local_token_unavailable demo_env fresh_world"
    by (simp add: local_token_unavailable_def demo_env_def)
  have b: "\<not> local_token_unavailable rejected_env fresh_world"
    "verification_fails rejected_env (snd (fetch_local_attestation_token rejected_env fresh_world))"
    by (simp_all add: local_token_unavailable_def verification_fails_def rejected_env_def
        demo_env_def demo_config_def fetch_local_attestation_token_def)
  show ?thesis
    using get_attestation_cipher_empty_on_failure [OF c, of demo_env]
      get_attestation_cipher_empty_on_failure [OF c, of rejected_env] a b
    by (simp add: fresh_world_def)
qed

lemma decrypt_dataset_keeps_cache:
  assumes "cached_cipher w = Some c"
  shows "cached_cipher (snd (decrypt_dataset e ds token cols offset limit w)) = Some c
       \<and> socket_calls (snd (decrypt_dataset e ds token cols offset limit w)) = socket_calls w
       \<and> verify_calls (snd (decrypt_dataset e ds token cols offset limit w)) = verify_calls w"
  using assms
  by (simp add: decrypt_dataset_def get_attestation_cipher_cached request_def split: sum.splits)

lemma after_call_keeps_cache:
  assumes "cached_cipher w = Some c"
  shows "cached_cipher (after_call e x w) = Some c
       \<and> socket_calls (after_call e x w) = socket_calls w
       \<and> verify_calls (after_call e x w) = verify_calls w"
  using assms
  by (cases x) (simp_all add: get_attestation_cipher_cached decrypt_dataset_keeps_cache)

lemma after_calls_keep_cache:
  assumes "cached_cipher w = Some c"
  shows "cached_cipher (after_calls e cs w) = Some c
       \<and> socket_calls (after_calls e cs w) = socket_calls w
       \<and> verify_calls (after_calls e cs w) = verify_calls w"
  using assms unfolding after_calls_def
proof (induction cs arbitrary: w)
  case Nil
  then show ?case by simp
next
  case (Cons x cs)
  from after_call_keeps_cache [OF Cons.prems, of e x]
  have k: "cached_cipher (after_call e x w) = Some c"
    "socket_calls (after_call e x w) = socket_calls w"
    "verify_calls (after_call e x w) = verify_calls w"
    by simp_all
  from Cons.IH [OF k(1)] k(2,3) show ?case by simp
qed

text \<open>
  C7. Once a first call of get_attestation_cipher has returned a string, whatever calls
  of get_attestation_cipher and decrypt_dataset the process makes afterwards, a call of
  get_attestation_cipher returns that same string (empty or not) and leaves the state
  as it is, the string stays cached, and neither the local socket nor the verification
  endpoint has been contacted again.
\<close>

theorem get_attestation_cipher_resolved_once:
  assumes "get_attestation_cipher e w0 = (c, w1)"
  shows "get_attestation_cipher e (after_calls e cs w1) = (c, after_calls e cs w1)
       \<and> cached_cipher (after_calls e cs w1) = Some c
       \<and> socket_calls (after_calls e cs w1) = socket_calls w1
       \<and> verify_calls (after_calls e cs w1) = verify_calls w1"
proof -
  from assms get_attestation_cipher_caches [of e w0] have "cached_cipher w1 = Some c" by simp
  from after_calls_keep_cache [OF this, of e cs] show ?thesis
    by (simp add: get_attestation_cipher_cached)
qed


theorem get_attestation_cipher_resolved_once_witness:
  "get_attestation_cipher attested_env
      (after_calls attested_env [DecryptDataset ''demo-dataset-001'' ''demo-token'' None 0 1000, GetCipher]
         attested_world)
     = (''cipher-1'',
        after_calls attested_env [DecryptDataset ''demo-dataset-001'' ''demo-token'' None 0 1000, GetCipher]
          attested_world)
   \<and> socket_calls
        (after_calls attested_env [DecryptDataset ''demo-dataset-001'' ''demo-token'' None 0 1000, GetCipher]
           attested_world) = 1
   \<and> verify_calls
        (after_calls attested_env [DecryptDataset ''demo-dataset-001'' ''demo-token'' None 0 1000, GetCipher]
           attested_world) = [''local-token'']"
proof -
  have first: "get_attestation_cipher attested_env fresh_world = (''cipher-1'', attested_world)"
    unfolding attested_world_def
    by (simp add: get_attestation_cipher_def attested_env_def demo_env_def demo_config_def
        fresh_world_def fetch_local_attestation_token_def request_attestation_cipher_def Let_def)
  have w: "socket_calls attested_world = 1 \<and> verify_calls attested_world = [''local-token'']"
    unfolding attested_world_def
    by (simp add: get_attestation_cipher_def attested_env_def demo_env_def demo_config_def
        fresh_world_def fetch_local_attestation_token_def request_attestation_cipher_def Let_def)
  from get_attestation_cipher_resolved_once [OF first,
      of "[DecryptDataset ''demo-dataset-001'' ''demo-token'' None 0 1000, GetCipher]"] w
  show ?thesis by simp
qed

subsection \<open>The decrypt endpoint\<close>

lemma decrypt_dataset_result:
  assumes "DS_DECRYPT_ENDPOINT (cfg e) \<noteq> []"
  shows "fst (decrypt_dataset e ds token cols offset limit w) =
     (case try_block (backend e (length (decrypt_calls w))) of
        Inl x \<Rightarrow> Inl (except_clauses x)
      | Inr r \<Rightarrow> validate r)"
proof -
  obtain key w1 where g: "get_attestation_cipher e w = (key, w1)"
    by (cases "get_attestation_cipher e w")
  then have "decrypt_calls w1 = decrypt_calls w"
    using get_attestation_cipher_decrypt_calls [of e w] by simp
  with assms g show ?thesis
    by (simp add: decrypt_dataset_def request_def split: sum.splits)
qed

lemma decrypt_dataset_calls:
  assumes "DS_DECRYPT_ENDPOINT (cfg e) \<noteq> []"
  shows "length (decrypt_calls (snd (decrypt_dataset e ds token cols offset limit w))) =
     Suc (length (decrypt_calls w))"
proof -
  obtain key w1 where g: "get_attestation_cipher e w = (key, w1)"
    by (cases "get_attestation_cipher e w")
  then have "decrypt_calls w1 = decrypt_calls w"
    using get_attestation_cipher_decrypt_calls [of e w] by simp
  with assms g show ?thesis
    by (simp add: decrypt_dataset_def request_def split: sum.splits)
qed

lemma validate_missing_key: "missing_key r \<Longrightarrow> validate r = Inl RemoteServerError"
  by (auto simp: missing_key_def validate_def)

text \<open>
  C4, as amended. The class raised by \<^verbatim>\<open>decrypt_dataset\<close>, by the outcome of the request:
  an HTTP error status 401 or 403 gives AuthError, 404 NotFoundError, 429 RateLimitError, a
  5xx status RemoteServerError; a 200 reply whose JSON object lacks a required key gives
  RemoteServerError; a 200 reply whose body is not JSON gives NetworkError, as does an
  exception of the transport.
\<close>

theorem decrypt_dataset_error_classes:
  assumes "DS_DECRYPT_ENDPOINT (cfg e) \<noteq> []"
    and "backend e (length (decrypt_calls w)) = out"
  shows "(out = HTTPError code \<and> (code = 401 \<or> code = 403)
            \<longrightarrow> fst (decrypt_dataset e ds token cols offset limit w) = Inl AuthError)
       \<and> (out = HTTPError 404
            \<longrightarrow> fst (decrypt_dataset e ds token cols offset limit w) = Inl NotFoundError)
       \<and> (out = HTTPError 429
            \<longrightarrow> fst (decrypt_dataset e ds token cols offset limit w) = Inl RateLimitError)
       \<and> (out = HTTPError code \<and> 500 \<le> code \<and> code < 600
            \<longrightarrow> fst (decrypt_dataset e ds token cols offset limit w) = Inl RemoteServerError)
       \<and> (out = Responded 200 (Json r) \<and> missing_key r
            \<longrightarrow> fst (decrypt_dataset e ds token cols offset limit w) = Inl RemoteServerError)
       \<and> (out = Responded 200 NotJson
            \<longrightarrow> fst (decrypt_dataset e ds token cols offset limit w) = Inl NetworkError)
       \<and> (out = URLError
            \<longrightarrow> fst (decrypt_dataset e ds token cols offset limit w) = Inl NetworkError)"
  using assms(2)
  by (auto simp: decrypt_dataset_result [OF assms(1)] try_block_def except_clauses_def
      validate_missing_key)

lemma backend_env_simps:
  "DS_DECRYPT_ENDPOINT (cfg (backend_env out)) \<noteq> []"
  "backend (backend_env out) k = out"
  by (simp_all add: backend_env_def demo_env_def demo_config_def)

theorem decrypt_dataset_error_classes_witness:
  "fst (decrypt_dataset (backend_env (HTTPError 401)) ''d'' ''t'' None 0 10 fresh_world) = Inl AuthError
   \<and> fst (decrypt_dataset (backend_env (HTTPError 404)) ''d'' ''t'' None 0 10 fresh_world) = Inl NotFoundError
   \<and> fst (decrypt_dataset (backend_env (HTTPError 429)) ''d'' ''t'' None 0 10 fresh_world) = Inl RateLimitError
   \<and> fst (decrypt_dataset (backend_env (HTTPError 503)) ''d'' ''t'' None 0 10 fresh_world) = Inl RemoteServerError
   \<and> fst (decrypt_dataset (backend_env (Responded 200 (Json ((demo_pages 0)\<lparr>has_more := None\<rparr>))))
            ''d'' ''t'' None 0 10 fresh_world) = Inl RemoteServerError
   \<and> fst (decrypt_dataset (backend_env (Responded 200 NotJson)) ''d'' ''t'' None 0 10 fresh_world) = Inl NetworkError
   \<and> fst (decrypt_dataset (backend_env URLError) ''d'' ''t'' None 0 10 fresh_world) = Inl NetworkError"
proof -
  have m: "missing_key ((demo_pages 0)\<lparr>has_more := None\<rparr>)"
    by (simp add: missing_key_def)
  note t = decrypt_dataset_error_classes [OF backend_env_simps(1) backend_env_simps(2),
      where w = fresh_world and ds = "''d''" and token = "''t''" and cols = None and offset = 0
        and limit = 10]
  show ?thesis
    using t [of "HTTPError 401" 401] t [of "HTTPError 404"] t [of "HTTPError 429"]
      t [of "HTTPError 503" 503]
      t [of "Responded 200 (Json ((demo_pages 0)\<lparr>has_more := None\<rparr>))" _ "(demo_pages 0)\<lparr>has_more := None\<rparr>"]
      t [of "Responded 200 NotJson"] t [of URLError] m
    by simp
qed

text \<open>
  The claim C4 as stated fails: a 200 reply whose body is not JSON raises NetworkError, not
  RemoteServerError.
\<close>

theorem decrypt_dataset_unparseable_counterexample:
  "fst (decrypt_dataset garbled_env ''demo-dataset-001'' ''demo-token'' None 0 1000 fresh_world)
     = Inl NetworkError
   \<and> fst (decrypt_dataset garbled_env ''demo-dataset-001'' ''demo-token'' None 0 1000 fresh_world)
     \<noteq> Inl RemoteServerError"
  by (simp add: decrypt_dataset_def garbled_env_def demo_env_def demo_config_def fresh_world_def
      get_attestation_cipher_def fetch_local_attestation_token_def request_def try_block_def
      except_clauses_def)

subsection \<open>Paged fetching\<close>

lemma validate_page: "page_invariant r \<Longrightarrow> validate r = Inr r"
  by (auto simp: page_invariant_def validate_def split: option.splits)

lemma row_dict_ok:
  "i + length cols \<le> length row \<Longrightarrow> \<exists>d. row_dict cols row i acc = Inr d"
  by (induction cols arbitrary: i acc) auto

lemma dict_list_ok:
  "list_all (\<lambda>row. length row = length cols) d
     \<Longrightarrow> \<exists>ds. dict_list cols d = Inr ds \<and> length ds = length d"
proof (induction d)
  case Nil
  then show ?case by simp
next
  case (Cons row d)
  then obtain ds where ds: "dict_list cols d = Inr ds" "length ds = length d"
    by auto
  from Cons.prems have "0 + length cols \<le> length row" by simp
  then obtain x where "row_dict cols row 0 [] = Inr x"
    using row_dict_ok by blast
  with ds show ?case by simp
qed

lemma response_to_dict_list_page:
  assumes "page_invariant r"
  shows "\<exists>ds. response_to_dict_list r = Inr ds \<and> row_count r = Some (int (length ds))"
proof -
  from assms obtain d cols where r: "data r = Some d" "columns r = Some cols"
      "row_count r = Some (int (length d))" "list_all (\<lambda>row. length row = length cols) d"
    by (auto simp: page_invariant_def split: option.splits)
  from dict_list_ok [OF r(4)] obtain ds where "dict_list cols d = Inr ds" "length ds = length d"
    by blast
  with r show ?thesis by (simp add: response_to_dict_list_def)
qed

lemma next_item_yield:
  assumes "\<not> g_finished g" "g_response g = Some r" "g_pending g = d # ds"
  shows "next_item e g w = Some (Yield d, g\<lparr>g_pending := ds\<rparr>, w)"
  using assms by (subst next_item.simps) (simp add: resume_def)

lemma next_item_page_end:
  assumes "\<not> g_finished g" "g_response g = Some r" "g_pending g = []"
    "row_count r = Some n" "has_more r = Some h"
  shows "next_item e g w =
     next_item e (g\<lparr>g_offset := g_offset g + n, g_has_more := h, g_response := None\<rparr>) w"
  using assms by (subst next_item.simps) (simp add: resume_def)

lemma next_item_stop:
  assumes "\<not> g_finished g" "g_response g = None" "\<not> g_has_more g"
  shows "next_item e g w = Some (StopIteration, g\<lparr>g_finished := True\<rparr>, w)"
  using assms by (subst next_item.simps) (simp add: resume_def)

lemma next_item_fetch:
  assumes "\<not> g_finished g" "g_response g = None" "g_has_more g"
    "decrypt_dataset e (g_dataset_id g) (g_token g) (g_columns g) (g_offset g) (g_page_size g) w
       = (Inr r, w')"
    "response_to_dict_list r = Inr ds"
  shows "next_item e g w = next_item e (g\<lparr>g_response := Some r, g_pending := ds\<rparr>) w'"
  using assms by (subst next_item.simps) (simp add: resume_def)


lemma decrypt_dataset_page:
  assumes "DS_DECRYPT_ENDPOINT (cfg e) \<noteq> []"
    and "backend e (length (decrypt_calls w)) = Responded 200 (Json r)"
    and "page_invariant r"
  shows "\<exists>w'. decrypt_dataset e ds token cols offset limit w = (Inr r, w')
           \<and> length (decrypt_calls w') = Suc (length (decrypt_calls w))"
proof -
  obtain res w' where d: "decrypt_dataset e ds token cols offset limit w = (res, w')"
    by (cases "decrypt_dataset e ds token cols offset limit w")
  have "res = Inr r"
    using decrypt_dataset_result [OF assms(1), of ds token cols offset limit w] d assms(2,3)
    by (simp add: try_block_def validate_page)
  moreover have "length (decrypt_calls w') = Suc (length (decrypt_calls w))"
    using decrypt_dataset_calls [OF assms(1), of ds token cols offset limit w] d by simp
  ultimately show ?thesis using d by simp
qed

lemma drain_cong:
  assumes "next_item e g w = next_item e g' w'"
  shows "drain e g w acc = drain e g' w' acc"
  unfolding drain.simps [of e g w acc] drain.simps [of e g' w' acc] assms ..

lemma drain_pending:
  assumes "\<not> g_finished g" "g_response g = Some r" "g_pending g = ps"
  shows "drain e g w acc = drain e (g\<lparr>g_pending := []\<rparr>) w (acc @ ps)"
  using assms
proof (induction ps arbitrary: g acc)
  case Nil
  then have "g\<lparr>g_pending := []\<rparr> = g" by simp
  then show ?case by simp
next
  case (Cons d ds)
  let ?g = "g\<lparr>g_pending := ds\<rparr>"
  have "drain e g w acc = drain e ?g w (acc @ [d])"
    unfolding drain.simps [of e g w acc] using Cons.prems
    by (simp add: next_item_yield)
  also have "\<dots> = drain e (?g\<lparr>g_pending := []\<rparr>) w ((acc @ [d]) @ ds)"
    using Cons.prems by (intro Cons.IH) simp_all
  finally show ?case by simp
qed

lemma drain_stop:
  assumes "\<not> g_finished g" "g_response g = None" "\<not> g_has_more g"
  shows "drain e g w acc = Some (Inr acc, g\<lparr>g_finished := True\<rparr>, w)"
  unfolding drain.simps [of e g w acc] using assms by (simp add: next_item_stop)

text \<open>One page, from the head of the loop to the head of the loop.\<close>

lemma drain_page:
  assumes "DS_DECRYPT_ENDPOINT (cfg e) \<noteq> []"
    and "backend e (length (decrypt_calls w)) = Responded 200 (Json r)"
    and "page_invariant r"
    and "\<not> g_finished g" "g_response g = None" "g_has_more g"
  shows "\<exists>g' w' ds h. drain e g w acc = drain e g' w' (acc @ ds)
           \<and> int (length ds) = row_count_of r
           \<and> has_more r = Some h \<and> g_has_more g' = h
           \<and> \<not> g_finished g' \<and> g_response g' = None
           \<and> length (decrypt_calls w') = Suc (length (decrypt_calls w))"
proof -
  from decrypt_dataset_page [OF assms(1-3)]
  obtain w' where w': "decrypt_dataset e (g_dataset_id g) (g_token g) (g_columns g) (g_offset g)
        (g_page_size g) w = (Inr r, w')"
      "length (decrypt_calls w') = Suc (length (decrypt_calls w))"
    by blast
  from response_to_dict_list_page [OF assms(3)]
  obtain ds where ds: "response_to_dict_list r = Inr ds" "row_count r = Some (int (length ds))"
    by blast
  from assms(3) obtain h where h: "has_more r = Some h"
    by (auto simp: page_invariant_def split: option.splits)
  let ?g1 = "g\<lparr>g_response := Some r, g_pending := ds\<rparr>"
  let ?g2 = "?g1\<lparr>g_pending := []\<rparr>"
  let ?g3 = "?g2\<lparr>g_offset := g_offset ?g2 + int (length ds), g_has_more := h,
                g_response := None\<rparr>"
  have "drain e g w acc = drain e ?g1 w' acc"
    by (rule drain_cong) (rule next_item_fetch [OF assms(4-6) w'(1) ds(1)])
  also have "\<dots> = drain e ?g2 w' (acc @ ds)"
    using assms(4) by (intro drain_pending [where r = r]) simp_all
  also have "\<dots> = drain e ?g3 w' (acc @ ds)"
    using assms(4) ds(2) h
    by (intro drain_cong next_item_page_end [where r = r]) simp_all
  finally have "drain e g w acc = drain e ?g3 w' (acc @ ds)" .
  moreover have "int (length ds) = row_count_of r"
    using ds(2) by (simp add: row_count_of_def)
  ultimately show ?thesis using h w'(2) assms(4) by (intro exI [of _ ?g3] exI [of _ w'] exI [of _ ds] exI [of _ h]) simp
qed

lemma drain_pages:
  assumes "DS_DECRYPT_ENDPOINT (cfg e) \<noteq> []"
    and "\<And>k. backend e k = Responded 200 (Json (pages k))"
    and "\<And>k. page_invariant (pages k)"
    and "has_more (pages m) = Some False"
    and "\<And>k. length (decrypt_calls w) \<le> k \<Longrightarrow> k < m \<Longrightarrow> has_more (pages k) = Some True"
    and "length (decrypt_calls w) \<le> m"
    and "\<not> g_finished g" "g_response g = None" "g_has_more g"
  shows "\<exists>rows g' w'. drain e g w acc = Some (Inr (acc @ rows), g', w')
           \<and> length (decrypt_calls w') = Suc m
           \<and> int (length rows) = (\<Sum>k = length (decrypt_calls w)..<Suc m. row_count_of (pages k))"
  using assms(4-)
proof (induction "m - length (decrypt_calls w)" arbitrary: g w acc)
  case 0
  then have m: "length (decrypt_calls w) = m" by simp
  from drain_page [OF assms(1) assms(2) [of "length (decrypt_calls w)"] assms(3) "0.prems"(4-6), of acc]
  obtain g' w' ds h where p: "drain e g w acc = drain e g' w' (acc @ ds)"
      "int (length ds) = row_count_of (pages (length (decrypt_calls w)))"
      "has_more (pages (length (decrypt_calls w))) = Some h" "g_has_more g' = h"
      "\<not> g_finished g'" "g_response g' = None"
      "length (decrypt_calls w') = Suc (length (decrypt_calls w))"
    by blast
  from p(3,4) m "0.prems"(1) have "\<not> g_has_more g'" by simp
  with p(5,6) have "drain e g' w' (acc @ ds) = Some (Inr (acc @ ds), g'\<lparr>g_finished := True\<rparr>, w')"
    by (intro drain_stop)
  with p(1,2,7) m show ?case by simp
next
  case (Suc d)
  let ?k = "length (decrypt_calls w)"
  from Suc.hyps(2) have lt: "?k < m" by simp
  from drain_page [OF assms(1) assms(2) [of ?k] assms(3) Suc.prems(4-6), of acc]
  obtain g' w' ds h where p: "drain e g w acc = drain e g' w' (acc @ ds)"
      "int (length ds) = row_count_of (pages ?k)"
      "has_more (pages ?k) = Some h" "g_has_more g' = h"
      "\<not> g_finished g'" "g_response g' = None"
      "length (decrypt_calls w') = Suc ?k"
    by blast
  from Suc.prems(2) [of ?k] lt p(3,4) have hm: "g_has_more g'" by simp
  have "\<exists>rows g'' w''. drain e g' w' (acc @ ds) = Some (Inr ((acc @ ds) @ rows), g'', w'')
           \<and> length (decrypt_calls w'') = Suc m
           \<and> int (length rows) = (\<Sum>k = length (decrypt_calls w')..<Suc m. row_count_of (pages k))"
  proof (rule Suc.hyps(1))
    show "d = m - length (decrypt_calls w')" using Suc.hyps(2) p(7) by simp
    show "has_more (pages m) = Some False" by (rule Suc.prems(1))
    show "has_more (pages k) = Some True" if "length (decrypt_calls w') \<le> k" "k < m" for k
      using that p(7) by (intro Suc.prems(2)) simp_all
    show "length (decrypt_calls w') \<le> m" using lt p(7) by simp
  qed (use p(5,6) hm in simp_all)
  then obtain rows g'' w'' where r: "drain e g' w' (acc @ ds) = Some (Inr ((acc @ ds) @ rows), g'', w'')"
      "length (decrypt_calls w'') = Suc m"
      "int (length rows) = (\<Sum>k = Suc ?k..<Suc m. row_count_of (pages k))"
    using p(7) by auto
  have "(\<Sum>k = ?k..<Suc m. row_count_of (pages k))
      = row_count_of (pages ?k) + (\<Sum>k = Suc ?k..<Suc m. row_count_of (pages k))"
    using lt by (simp add: sum.atLeast_Suc_lessThan)
  with p(1,2) r show ?case
    by (intro exI [of _ "ds @ rows"] exI [of _ g''] exI [of _ w'']) simp
qed



lemma fetch_all_pages_head:
  "\<not> g_finished (fetch_all_pages ds token cols page_size start_offset)"
  "g_response (fetch_all_pages ds token cols page_size start_offset) = None"
  "g_has_more (fetch_all_pages ds token cols page_size start_offset)"
  by (simp_all add: fetch_all_pages_def)

lemma first_last_page:
  fixes k0 n :: nat
  assumes "k0 \<le> n" "has_more (pages n) = Some False" "\<And>k. page_invariant (pages k)"
  shows "\<exists>m. k0 \<le> m \<and> m \<le> n \<and> has_more (pages m) = Some False
           \<and> (\<forall>k. k0 \<le> k \<and> k < m \<longrightarrow> has_more (pages k) = Some True)"
proof -
  define m where "m = (LEAST m. k0 \<le> m \<and> has_more (pages m) = Some False)"
  have ex: "k0 \<le> n \<and> has_more (pages n) = Some False" using assms by simp
  have m: "k0 \<le> m \<and> has_more (pages m) = Some False"
    unfolding m_def by (rule LeastI [of _ n]) (rule ex)
  have le: "m \<le> n" unfolding m_def by (rule Least_le) (rule ex)
  have "has_more (pages k) = Some True" if "k0 \<le> k" "k < m" for k
  proof -
    from that have "\<not> (k0 \<le> k \<and> has_more (pages k) = Some False)"
      unfolding m_def by (auto dest: not_less_Least)
    with that have "has_more (pages k) \<noteq> Some False" by simp
    moreover from assms(3) [of k] obtain h where "has_more (pages k) = Some h"
      by (auto simp: page_invariant_def split: option.splits)
    ultimately show ?thesis by auto
  qed
  with m le show ?thesis by blast
qed

text \<open>
  C1. Against a backend that serves one well-formed page per request, one of which (at
  or after the next request) reports has_more = false, running the generator of
  fetch_all_pages to its end terminates without an error, and the number of row records
  emitted is the sum of row_count over the pages fetched; the last page fetched reports
  has_more = false.
\<close>

theorem fetch_all_pages_emits_row_counts:
  assumes "DS_DECRYPT_ENDPOINT (cfg e) \<noteq> []"
    and "\<And>k. backend e k = Responded 200 (Json (pages k))"
    and "\<And>k. page_invariant (pages k)"
    and "length (decrypt_calls w) \<le> n"
    and "has_more (pages n) = Some False"
  shows "\<exists>rows g' w' m.
           drain e (fetch_all_pages ds token cols page_size start_offset) w [] = Some (Inr rows, g', w')
           \<and> int (length rows)
               = (\<Sum>k = length (decrypt_calls w)..<length (decrypt_calls w'). row_count_of (pages k))
           \<and> length (decrypt_calls w') = Suc m \<and> m \<le> n \<and> has_more (pages m) = Some False"
proof -
  from first_last_page [of "length (decrypt_calls w)" n pages] assms(3,4,5)
  obtain m where m: "length (decrypt_calls w) \<le> m" "m \<le> n" "has_more (pages m) = Some False"
      "\<And>k. length (decrypt_calls w) \<le> k \<Longrightarrow> k < m \<Longrightarrow> has_more (pages k) = Some True"
    by blast
  have "\<exists>rows g' w'.
          drain e (fetch_all_pages ds token cols page_size start_offset) w []
            = Some (Inr ([] @ rows), g', w')
          \<and> length (decrypt_calls w') = Suc m
          \<and> int (length rows) = (\<Sum>k = length (decrypt_calls w)..<Suc m. row_count_of (pages k))"
    by (rule drain_pages [where pages = pages])
      (use assms(1,2,3) m(1,3,4) in \<open>simp_all add: fetch_all_pages_head\<close>)
  then obtain rows g' w' where
    "drain e (fetch_all_pages ds token cols page_size start_offset) w [] = Some (Inr rows, g', w')"
    "length (decrypt_calls w') = Suc m"
    "int (length rows) = (\<Sum>k = length (decrypt_calls w)..<Suc m. row_count_of (pages k))"
    by auto
  with m(2,3) show ?thesis by auto
qed

lemma demo_pages_invariant: "page_invariant (demo_pages k)"
  by (simp add: page_invariant_def demo_pages_def)

theorem fetch_all_pages_emits_row_counts_witness:
  "\<exists>rows g' w'.
     drain demo_env (fetch_all_pages ''demo-dataset-001'' ''demo-token'' None 1000 0) fresh_world []
       = Some (Inr rows, g', w')
     \<and> length rows = 3 \<and> length (decrypt_calls w') = 2"
proof -
  have cfg: "DS_DECRYPT_ENDPOINT (cfg demo_env) \<noteq> []"
    by (simp add: demo_env_def demo_config_def)
  have served: "backend demo_env k = Responded 200 (Json (demo_pages k))" for k
    by (simp add: demo_env_def)
  have start: "length (decrypt_calls fresh_world) \<le> 1"
    by (simp add: fresh_world_def)
  have last: "has_more (demo_pages 1) = Some False"
    by (simp add: demo_pages_def)
  have "\<exists>rows g' w' m.
     drain demo_env (fetch_all_pages ''demo-dataset-001'' ''demo-token'' None 1000 0) fresh_world []
       = Some (Inr rows, g', w')
     \<and> int (length rows)
       = (\<Sum>k = length (decrypt_calls fresh_world)..<length (decrypt_calls w'). row_count_of (demo_pages k))
     \<and> length (decrypt_calls w') = Suc m \<and> m \<le> 1 \<and> has_more (demo_pages m) = Some False"
    by (rule fetch_all_pages_emits_row_counts [where pages = demo_pages and n = 1])
      (use cfg served demo_pages_invariant start last in simp_all)
  then obtain rows g' w' m where r:
    "drain demo_env (fetch_all_pages ''demo-dataset-001'' ''demo-token'' None 1000 0) fresh_world []
       = Some (Inr rows, g', w')"
    "int (length rows)
       = (\<Sum>k = length (decrypt_calls fresh_world)..<length (decrypt_calls w'). row_count_of (demo_pages k))"
    "length (decrypt_calls w') = Suc m" "m \<le> 1" "has_more (demo_pages m) = Some False"
    by blast
  from r(4,5) have "m = 1" by (cases "m = 0") (simp_all add: demo_pages_def)
  with r(2,3) have "length rows = 3"
    by (simp add: fresh_world_def demo_pages_def row_count_of_def numeral_2_eq_2)
  with r(1,3) \<open>m = 1\<close> show ?thesis by auto
qed

lemma limit_reached_mono:
  "limit_reached limit xs \<Longrightarrow> length xs \<le> length ys \<Longrightarrow> limit_reached limit ys"
  by (auto simp: limit_reached_def split: option.splits)

lemma collect_cong:
  assumes "next_item e g w = next_item e g' w'"
  shows "collect e limit g w acc = collect e limit g' w' acc"
  unfolding collect.simps [of e limit g w acc] collect.simps [of e limit g' w' acc] assms ..

lemma collect_stop:
  assumes "\<not> g_finished g" "g_response g = None" "\<not> g_has_more g"
  shows "collect e limit g w acc = Some (Inr acc, w)"
  unfolding collect.simps [of e limit g w acc] using assms by (simp add: next_item_stop)

lemma collect_pending_under:
  assumes "\<not> g_finished g" "g_response g = Some r" "g_pending g = ps"
    and "\<not> limit_reached limit (acc @ ps)"
  shows "collect e limit g w acc = collect e limit (g\<lparr>g_pending := []\<rparr>) w (acc @ ps)"
  using assms
proof (induction ps arbitrary: g acc)
  case Nil
  then have "g\<lparr>g_pending := []\<rparr> = g" by simp
  then show ?case by simp
next
  case (Cons d ds)
  let ?g = "g\<lparr>g_pending := ds\<rparr>"
  have "\<not> limit_reached limit (acc @ [d])"
    using Cons.prems(4) limit_reached_mono [of limit "acc @ [d]" "acc @ d # ds"] by auto
  then have "collect e limit g w acc = collect e limit ?g w (acc @ [d])"
    unfolding collect.simps [of e limit g w acc] using Cons.prems
    by (simp add: next_item_yield)
  also have "\<dots> = collect e limit (?g\<lparr>g_pending := []\<rparr>) w ((acc @ [d]) @ ds)"
    using Cons.prems by (intro Cons.IH) simp_all
  finally show ?case by simp
qed

lemma collect_pending_reach:
  assumes "\<not> g_finished g" "g_response g = Some r" "g_pending g = ps"
    and "int (length acc) < l" "l \<le> int (length acc + length ps)"
  shows "collect e (Some l) g w acc = Some (Inr (acc @ take (nat l - length acc) ps), w)"
  using assms
proof (induction ps arbitrary: g acc)
  case Nil
  then show ?case by simp
next
  case (Cons d ds)
  let ?g = "g\<lparr>g_pending := ds\<rparr>"
  have n: "next_item e g w = Some (Yield d, ?g, w)"
    using Cons.prems by (simp add: next_item_yield)
  from Cons.prems(4) have pos: "nat l - length acc = Suc (nat l - length (acc @ [d]))"
    by simp
  show ?case
  proof (cases "limit_reached (Some l) (acc @ [d])")
    case True
    with Cons.prems(4) have "nat l - length (acc @ [d]) = 0"
      by (simp add: limit_reached_def)
    with True n pos show ?thesis
      unfolding collect.simps [of e "Some l" g w acc] by simp
  next
    case False
    with Cons.prems(4) have lt: "int (length (acc @ [d])) < l"
      by (simp add: limit_reached_def)
    have "collect e (Some l) g w acc = collect e (Some l) ?g w (acc @ [d])"
      unfolding collect.simps [of e "Some l" g w acc] using n False by simp
    also have "\<dots> = Some (Inr ((acc @ [d]) @ take (nat l - length (acc @ [d])) ds), w)"
      using Cons.prems lt by (intro Cons.IH) simp_all
    finally show ?thesis using pos by simp
  qed
qed

text \<open>From the head of the loop into the page that the backend serves next.\<close>

lemma collect_fetch:
  assumes "DS_DECRYPT_ENDPOINT (cfg e) \<noteq> []"
    and "backend e (length (decrypt_calls w)) = Responded 200 (Json r)"
    and "page_invariant r"
    and "\<not> g_finished g" "g_response g = None" "g_has_more g"
  shows "\<exists>w' ds h. collect e limit g w acc
             = collect e limit (g\<lparr>g_response := Some r, g_pending := ds\<rparr>) w' acc
           \<and> int (length ds) = row_count_of r \<and> row_count r = Some (int (length ds))
           \<and> has_more r = Some h
           \<and> length (decrypt_calls w') = Suc (length (decrypt_calls w))"
proof -
  from decrypt_dataset_page [OF assms(1-3)]
  obtain w' where w': "decrypt_dataset e (g_dataset_id g) (g_token g) (g_columns g) (g_offset g)
        (g_page_size g) w = (Inr r, w')"
      "length (decrypt_calls w') = Suc (length (decrypt_calls w))"
    by blast
  from response_to_dict_list_page [OF assms(3)]
  obtain ds where ds: "response_to_dict_list r = Inr ds" "row_count r = Some (int (length ds))"
    by blast
  from assms(3) obtain h where h: "has_more r = Some h"
    by (auto simp: page_invariant_def split: option.splits)
  have "collect e limit g w acc
      = collect e limit (g\<lparr>g_response := Some r, g_pending := ds\<rparr>) w' acc"
    by (rule collect_cong) (rule next_item_fetch [OF assms(4-6) w'(1) ds(1)])
  with ds(2) h w'(2) show ?thesis
    by (intro exI [of _ w'] exI [of _ ds] exI [of _ h]) (simp add: row_count_of_def)
qed

text \<open>A whole page, when the limit is not reached in it.\<close>

lemma collect_page_under:
  assumes "DS_DECRYPT_ENDPOINT (cfg e) \<noteq> []"
    and "backend e (length (decrypt_calls w)) = Responded 200 (Json r)"
    and "page_invariant r"
    and "\<not> g_finished g" "g_response g = None" "g_has_more g"
    and "\<And>ds. int (length ds) = row_count_of r \<Longrightarrow> \<not> limit_reached limit (acc @ ds)"
  shows "\<exists>g' w' ds h. collect e limit g w acc = collect e limit g' w' (acc @ ds)
           \<and> int (length ds) = row_count_of r
           \<and> has_more r = Some h \<and> g_has_more g' = h
           \<and> \<not> g_finished g' \<and> g_response g' = None
           \<and> length (decrypt_calls w') = Suc (length (decrypt_calls w))"
proof -
  from collect_fetch [OF assms(1-6), of limit acc]
  obtain w' ds h where f:
      "collect e limit g w acc
         = collect e limit (g\<lparr>g_response := Some r, g_pending := ds\<rparr>) w' acc"
      "int (length ds) = row_count_of r" "row_count r = Some (int (length ds))"
      "has_more r = Some h"
      "length (decrypt_calls w') = Suc (length (decrypt_calls w))"
    by blast
  let ?g1 = "g\<lparr>g_response := Some r, g_pending := ds\<rparr>"
  let ?g2 = "?g1\<lparr>g_pending := []\<rparr>"
  let ?g3 = "?g2\<lparr>g_offset := g_offset ?g2 + int (length ds), g_has_more := h,
                g_response := None\<rparr>"
  note f(1)
  also have "collect e limit ?g1 w' acc = collect e limit ?g2 w' (acc @ ds)"
    using assms(4) assms(7) [OF f(2)] by (intro collect_pending_under [where r = r]) simp_all
  also have "\<dots> = collect e limit ?g3 w' (acc @ ds)"
    using assms(4) f(3,4)
    by (intro collect_cong next_item_page_end [where r = r]) simp_all
  finally have "collect e limit g w acc = collect e limit ?g3 w' (acc @ ds)" .
  with f(2,4,5) assms(4) show ?thesis
    by (intro exI [of _ ?g3] exI [of _ w'] exI [of _ ds] exI [of _ h]) simp
qed

lemma row_count_of_nonneg: "page_invariant r \<Longrightarrow> 0 \<le> row_count_of r"
  by (auto simp: page_invariant_def row_count_of_def split: option.splits)

lemma collect_pages_limit:
  assumes "DS_DECRYPT_ENDPOINT (cfg e) \<noteq> []"
    and "\<And>k. backend e k = Responded 200 (Json (pages k))"
    and "\<And>k. page_invariant (pages k)"
    and "\<And>k. length (decrypt_calls w) \<le> k \<Longrightarrow> k < m \<Longrightarrow> has_more (pages k) = Some True"
    and "length (decrypt_calls w) \<le> m"
    and "int (length acc) + (\<Sum>k = length (decrypt_calls w)..<m. row_count_of (pages k)) < l"
    and "l \<le> int (length acc) + (\<Sum>k = length (decrypt_calls w)..<Suc m. row_count_of (pages k))"
    and "\<not> g_finished g" "g_response g = None" "g_has_more g"
  shows "\<exists>rows w'. collect e (Some l) g w acc = Some (Inr rows, w')
           \<and> int (length rows) = l \<and> length (decrypt_calls w') = Suc m"
  using assms(4-)
proof (induction "m - length (decrypt_calls w)" arbitrary: g w acc)
  case 0
  let ?k = "length (decrypt_calls w)"
  from 0 have m: "?k = m" by simp
  from collect_fetch [OF assms(1) assms(2) [of ?k] assms(3) "0.prems"(5-7), of "Some l" acc]
  obtain w' ds where f:
      "collect e (Some l) g w acc
         = collect e (Some l) (g\<lparr>g_response := Some (pages ?k), g_pending := ds\<rparr>) w' acc"
      "int (length ds) = row_count_of (pages ?k)"
      "length (decrypt_calls w') = Suc ?k"
    by blast
  from "0.prems"(3,4) m f(2) have b: "int (length acc) < l" "l \<le> int (length acc + length ds)"
    by simp_all
  have "collect e (Some l) (g\<lparr>g_response := Some (pages ?k), g_pending := ds\<rparr>) w' acc
      = Some (Inr (acc @ take (nat l - length acc) ds), w')"
    using "0.prems"(5) b by (intro collect_pending_reach [where r = "pages ?k"]) simp_all
  moreover from b have "int (length (acc @ take (nat l - length acc) ds)) = l"
    by auto
  ultimately show ?case using f(1,3) m by auto
next
  case (Suc d)
  let ?k = "length (decrypt_calls w)"
  from Suc.hyps(2) have lt: "?k < m" by simp
  have split: "(\<Sum>k = ?k..<n. row_count_of (pages k))
      = row_count_of (pages ?k) + (\<Sum>k = Suc ?k..<n. row_count_of (pages k))" if "?k < n" for n
    using that by (simp add: sum.atLeast_Suc_lessThan)
  have nonneg: "0 \<le> (\<Sum>k = Suc ?k..<m. row_count_of (pages k))"
    by (intro sum_nonneg row_count_of_nonneg assms(3))
  have under: "\<not> limit_reached (Some l) (acc @ ds)"
    if "int (length ds) = row_count_of (pages ?k)" for ds :: "'a row_record list"
    using that Suc.prems(3) split [OF lt] nonneg by (simp add: limit_reached_def)
  from collect_page_under [OF assms(1) assms(2) [of ?k] assms(3) Suc.prems(5-7) under]
  obtain g' w' ds h where p: "collect e (Some l) g w acc = collect e (Some l) g' w' (acc @ ds)"
      "int (length ds) = row_count_of (pages ?k)"
      "has_more (pages ?k) = Some h" "g_has_more g' = h"
      "\<not> g_finished g'" "g_response g' = None"
      "length (decrypt_calls w') = Suc ?k"
    by blast
  from Suc.prems(1) [of ?k] lt p(3,4) have hm: "g_has_more g'" by simp
  have "\<exists>rows w''. collect e (Some l) g' w' (acc @ ds) = Some (Inr rows, w'')
           \<and> int (length rows) = l \<and> length (decrypt_calls w'') = Suc m"
  proof (rule Suc.hyps(1))
    show "d = m - length (decrypt_calls w')" using Suc.hyps(2) p(7) by simp
    show "has_more (pages k) = Some True" if "length (decrypt_calls w') \<le> k" "k < m" for k
      using that p(7) by (intro Suc.prems(1)) simp_all
    show "length (decrypt_calls w') \<le> m" using lt p(7) by simp
    show "int (length (acc @ ds))
        + (\<Sum>k = length (decrypt_calls w')..<m. row_count_of (pages k)) < l"
      using Suc.prems(3) split [OF lt] p(2,7) by simp
    show "l \<le> int (length (acc @ ds))
        + (\<Sum>k = length (decrypt_calls w')..<Suc m. row_count_of (pages k))"
      using Suc.prems(4) split [of "Suc m"] lt p(2,7) by simp
  qed (use p(5,6) hm in simp_all)
  with p(1) show ?case by simp
qed


lemma collect_pages_all:
  assumes "DS_DECRYPT_ENDPOINT (cfg e) \<noteq> []"
    and "\<And>k. backend e k = Responded 200 (Json (pages k))"
    and "\<And>k. page_invariant (pages k)"
    and "has_more (pages m) = Some False"
    and "\<And>k. length (decrypt_calls w) \<le> k \<Longrightarrow> k < m \<Longrightarrow> has_more (pages k) = Some True"
    and "length (decrypt_calls w) \<le> m"
    and "\<not> g_finished g" "g_response g = None" "g_has_more g"
  shows "\<exists>rows w'. collect e None g w acc = Some (Inr (acc @ rows), w')
           \<and> length (decrypt_calls w') = Suc m
           \<and> int (length rows) = (\<Sum>k = length (decrypt_calls w)..<Suc m. row_count_of (pages k))"
  using assms(4-)
proof (induction "m - length (decrypt_calls w)" arbitrary: g w acc)
  case 0
  let ?k = "length (decrypt_calls w)"
  from 0 have m: "?k = m" by simp
  have under: "\<not> limit_reached None (acc @ ds)" for ds :: "'a row_record list"
    by (simp add: limit_reached_def)
  from collect_page_under [OF assms(1) assms(2) [of ?k] assms(3) "0.prems"(4-6) under]
  obtain g' w' ds h where p: "collect e None g w acc = collect e None g' w' (acc @ ds)"
      "int (length ds) = row_count_of (pages ?k)"
      "has_more (pages ?k) = Some h" "g_has_more g' = h"
      "\<not> g_finished g'" "g_response g' = None"
      "length (decrypt_calls w') = Suc ?k"
    by blast
  from p(3,4) m "0.prems"(1) have "\<not> g_has_more g'" by simp
  with p(5,6) have "collect e None g' w' (acc @ ds) = Some (Inr (acc @ ds), w')"
    by (intro collect_stop)
  with p(1,2,7) m show ?case by simp
next
  case (Suc d)
  let ?k = "length (decrypt_calls w)"
  from Suc.hyps(2) have lt: "?k < m" by simp
  have under: "\<not> limit_reached None (acc @ ds)" for ds :: "'a row_record list"
    by (simp add: limit_reached_def)
  from collect_page_under [OF assms(1) assms(2) [of ?k] assms(3) Suc.prems(4-6) under]
  obtain g' w' ds h where p: "collect e None g w acc = collect e None g' w' (acc @ ds)"
      "int (length ds) = row_count_of (pages ?k)"
      "has_more (pages ?k) = Some h" "g_has_more g' = h"
      "\<not> g_finished g'" "g_response g' = None"
      "length (decrypt_calls w') = Suc ?k"
    by blast
  from Suc.prems(2) [of ?k] lt p(3,4) have hm: "g_has_more g'" by simp
  have "\<exists>rows w''. collect e None g' w' (acc @ ds) = Some (Inr ((acc @ ds) @ rows), w'')
           \<and> length (decrypt_calls w'') = Suc m
           \<and> int (length rows) = (\<Sum>k = length (decrypt_calls w')..<Suc m. row_count_of (pages k))"
  proof (rule Suc.hyps(1))
    show "d = m - length (decrypt_calls w')" using Suc.hyps(2) p(7) by simp
    show "has_more (pages m) = Some False" by (rule Suc.prems(1))
    show "has_more (pages k) = Some True" if "length (decrypt_calls w') \<le> k" "k < m" for k
      using that p(7) by (intro Suc.prems(2)) simp_all
    show "length (decrypt_calls w') \<le> m" using lt p(7) by simp
  qed (use p(5,6) hm in simp_all)
  then obtain rows w'' where r: "collect e None g' w' (acc @ ds) = Some (Inr ((acc @ ds) @ rows), w'')"
      "length (decrypt_calls w'') = Suc m"
      "int (length rows) = (\<Sum>k = Suc ?k..<Suc m. row_count_of (pages k))"
    using p(7) by auto
  have "(\<Sum>k = ?k..<Suc m. row_count_of (pages k))
      = row_count_of (pages ?k) + (\<Sum>k = Suc ?k..<Suc m. row_count_of (pages k))"
    using lt by (simp add: sum.atLeast_Suc_lessThan)
  with p(1,2) r show ?case
    by (intro exI [of _ "ds @ rows"] exI [of _ w'']) simp
qed

lemma limit_page:
  fixes k0 n :: nat and rc :: "nat \<Rightarrow> int"
  assumes "k0 \<le> n" "0 < l" "l \<le> (\<Sum>k = k0..<Suc n. rc k)"
  shows "\<exists>m. k0 \<le> m \<and> m \<le> n \<and> (\<Sum>k = k0..<m. rc k) < l \<and> l \<le> (\<Sum>k = k0..<Suc m. rc k)"
proof -
  define m where "m = (LEAST m. k0 \<le> m \<and> l \<le> (\<Sum>k = k0..<Suc m. rc k))"
  have ex: "k0 \<le> n \<and> l \<le> (\<Sum>k = k0..<Suc n. rc k)" using assms by simp
  have m: "k0 \<le> m \<and> l \<le> (\<Sum>k = k0..<Suc m. rc k)"
    unfolding m_def by (rule LeastI [of _ n]) (rule ex)
  have le: "m \<le> n" unfolding m_def by (rule Least_le) (rule ex)
  have "(\<Sum>k = k0..<m. rc k) < l"
  proof (cases "m = k0")
    case True
    with assms(2) show ?thesis by simp
  next
    case False
    with m obtain j where j: "m = Suc j" "k0 \<le> j" by (cases m) auto
    then have "j < m" by simp
    then have "\<not> (k0 \<le> j \<and> l \<le> (\<Sum>k = k0..<Suc j. rc k))"
      unfolding m_def by (rule not_less_Least)
    with j show ?thesis by simp
  qed
  with m le show ?thesis by blast
qed

text \<open>
  C5. Against a backend that serves well-formed pages, of which page n is the first to
  report has_more = false, a non-streaming load with a positive limit below the
  number of rows of the pages up to n returns a dataset of exactly limit rows; the last
  page requested is the one that holds the limit-th row (the pages before it hold fewer
  than limit rows), so no request follows the collection of that row.
\<close>

theorem load_dataset_from_api_stops_at_limit:
  assumes "DS_DECRYPT_ENDPOINT (cfg e) \<noteq> []"
    and "\<And>k. backend e k = Responded 200 (Json (pages k))"
    and "\<And>k. page_invariant (pages k)"
    and "length (decrypt_calls w) \<le> n"
    and "has_more (pages n) = Some False"
    and "\<And>k. length (decrypt_calls w) \<le> k \<Longrightarrow> k < n \<Longrightarrow> has_more (pages k) = Some True"
    and "0 < l"
    and "l < (\<Sum>k = length (decrypt_calls w)..<Suc n. row_count_of (pages k))"
  shows "\<exists>rows w' m.
           load_dataset_from_api e ds token cols False (Some l) offset w
             = Some (Inr (Dataset rows), w')
           \<and> int (length rows) = l
           \<and> length (decrypt_calls w') = Suc m
           \<and> (\<Sum>k = length (decrypt_calls w)..<m. row_count_of (pages k)) < l
           \<and> l \<le> (\<Sum>k = length (decrypt_calls w)..<Suc m. row_count_of (pages k))"
proof -
  let ?k0 = "length (decrypt_calls w)"
  from limit_page [of ?k0 n l "\<lambda>k. row_count_of (pages k)"] assms(4,7,8)
  obtain m where m: "?k0 \<le> m" "m \<le> n"
      "(\<Sum>k = ?k0..<m. row_count_of (pages k)) < l"
      "l \<le> (\<Sum>k = ?k0..<Suc m. row_count_of (pages k))"
    by auto
  let ?g = "fetch_all_pages ds token cols (page_size_for (cfg e) (Some l)) offset :: 'a generator"
  have "\<exists>rows w'. collect e (Some l) ?g w [] = Some (Inr rows, w')
           \<and> int (length rows) = l \<and> length (decrypt_calls w') = Suc m"
  proof (rule collect_pages_limit [where pages = pages])
    show "has_more (pages k) = Some True" if "?k0 \<le> k" "k < m" for k
      using that m(2) by (intro assms(6)) simp_all
  qed (use assms(1,2,3) m in \<open>simp_all add: fetch_all_pages_head\<close>)
  then obtain rows w' where "collect e (Some l) ?g w [] = Some (Inr rows, w')"
      "int (length rows) = l" "length (decrypt_calls w') = Suc m"
    by blast
  with m(3,4) show ?thesis
    by (intro exI [of _ rows] exI [of _ w'] exI [of _ m]) (simp add: load_dataset_from_api_def)
qed

lemma demo_env_facts:
  "DS_DECRYPT_ENDPOINT (cfg demo_env) \<noteq> []"
  "backend demo_env k = Responded 200 (Json (demo_pages k))"
  "length (decrypt_calls fresh_world) = 0"
  "has_more (demo_pages 1) = Some False"
  "has_more (demo_pages 0) = Some True"
  "row_count_of (demo_pages 0) = 2"
  "row_count_of (demo_pages 1) = 1"
  "has_more (demo_pages (Suc 0)) = Some False"
  "row_count_of (demo_pages (Suc 0)) = 1"
  by (simp_all add: demo_env_def demo_config_def fresh_world_def demo_pages_def row_count_of_def)

theorem load_dataset_from_api_stops_at_limit_witness:
  "\<exists>rows w'.
     load_dataset_from_api demo_env ''demo-dataset-001'' ''demo-token'' None False (Some 2) 0 fresh_world
       = Some (Inr (Dataset rows), w')
     \<and> length rows = 2 \<and> length (decrypt_calls w') = 1"
proof -
  have "\<exists>rows w' m.
     load_dataset_from_api demo_env ''demo-dataset-001'' ''demo-token'' None False (Some 2) 0 fresh_world
       = Some (Inr (Dataset rows), w')
     \<and> int (length rows) = 2
     \<and> length (decrypt_calls w') = Suc m
     \<and> (\<Sum>k = length (decrypt_calls fresh_world)..<m. row_count_of (demo_pages k)) < 2
     \<and> 2 \<le> (\<Sum>k = length (decrypt_calls fresh_world)..<Suc m. row_count_of (demo_pages k))"
  proof (rule load_dataset_from_api_stops_at_limit [where pages = demo_pages and n = 1])
    show "has_more (demo_pages k) = Some True" if "length (decrypt_calls fresh_world) \<le> k" "k < 1" for k
      using that by (simp add: demo_env_facts)
    show "2 < (\<Sum>k = length (decrypt_calls fresh_world)..<Suc 1. row_count_of (demo_pages k))"
      by (simp add: demo_env_facts)
  qed (simp_all add: demo_env_facts demo_pages_invariant)
  then obtain rows w' m where r:
    "load_dataset_from_api demo_env ''demo-dataset-001'' ''demo-token'' None False (Some 2) 0 fresh_world
       = Some (Inr (Dataset rows), w')"
    "int (length rows) = 2" "length (decrypt_calls w') = Suc m"
    "(\<Sum>k = 0..<m. row_count_of (demo_pages k)) < 2"
    by (auto simp: demo_env_facts)
  have "m = 0"
  proof (rule ccontr)
    assume "m \<noteq> 0"
    then have "(\<Sum>k = 0..<m. row_count_of (demo_pages k))
        = row_count_of (demo_pages 0) + (\<Sum>k = Suc 0..<m. row_count_of (demo_pages k))"
      by (simp add: sum.atLeast_Suc_lessThan)
    moreover have "0 \<le> (\<Sum>k = Suc 0..<m. row_count_of (demo_pages k))"
      by (intro sum_nonneg row_count_of_nonneg demo_pages_invariant)
    ultimately show False using r(4) by (simp add: demo_env_facts)
  qed
  with r(1,2,3) show ?thesis by auto
qed

lemma collect_zero_none:
  assumes "collect e (Some 0) g w acc = Some y"
  shows "collect e None g w acc = Some y"
proof -
  have "Some (0::int) = Some 0 \<longrightarrow> collect e None g w acc = Some y"
  proof (rule collect.raw_induct
      [where P = "\<lambda>e limit g w acc y. limit = Some 0 \<longrightarrow> collect e None g w acc = Some y",
        OF _ assms])
    fix collect' :: "'a env \<Rightarrow> int option \<Rightarrow> 'a generator \<Rightarrow> world \<Rightarrow> 'a row_record list
        \<Rightarrow> ((error + 'a row_record list) \<times> world) option"
    fix e limit g w all_rows y
    assume IH: "\<And>e limit g w all_rows y. collect' e limit g w all_rows = Some y
        \<Longrightarrow> limit = Some 0 \<longrightarrow> collect e None g w all_rows = Some y"
    assume step: "(case next_item e g w of None \<Rightarrow> None
      | Some (Yield d, g', w') \<Rightarrow>
          if limit_reached limit (all_rows @ [d])
          then Some (Inr (all_rows @ [d]), w')
          else collect' e limit g' w' (all_rows @ [d])
      | Some (StopIteration, g', w') \<Rightarrow> Some (Inr all_rows, w')
      | Some (Raise err, g', w') \<Rightarrow> Some (Inl err, w')) = Some y"
    show "limit = Some 0 \<longrightarrow> collect e None g w all_rows = Some y"
    proof
      assume l: "limit = Some 0"
      show "collect e None g w all_rows = Some y"
        unfolding collect.simps [of e None g w all_rows]
        using step IH l
        by (auto simp: limit_reached_def split: option.splits prod.splits signal.splits)
    qed
  qed
  then show ?thesis by simp
qed

lemma collect_none_zero:
  assumes "collect e None g w acc = Some y"
  shows "collect e (Some 0) g w acc = Some y"
proof -
  have "(None :: int option) = None \<longrightarrow> collect e (Some 0) g w acc = Some y"
  proof (rule collect.raw_induct
      [where P = "\<lambda>e limit g w acc y. limit = None \<longrightarrow> collect e (Some 0) g w acc = Some y",
        OF _ assms])
    fix collect' :: "'a env \<Rightarrow> int option \<Rightarrow> 'a generator \<Rightarrow> world \<Rightarrow> 'a row_record list
        \<Rightarrow> ((error + 'a row_record list) \<times> world) option"
    fix e limit g w all_rows y
    assume IH: "\<And>e limit g w all_rows y. collect' e limit g w all_rows = Some y
        \<Longrightarrow> limit = None \<longrightarrow> collect e (Some 0) g w all_rows = Some y"
    assume step: "(case next_item e g w of None \<Rightarrow> None
      | Some (Yield d, g', w') \<Rightarrow>
          if limit_reached limit (all_rows @ [d])
          then Some (Inr (all_rows @ [d]), w')
          else collect' e limit g' w' (all_rows @ [d])
      | Some (StopIteration, g', w') \<Rightarrow> Some (Inr all_rows, w')
      | Some (Raise err, g', w') \<Rightarrow> Some (Inl err, w')) = Some y"
    show "limit = None \<longrightarrow> collect e (Some 0) g w all_rows = Some y"
    proof
      assume l: "limit = None"
      show "collect e (Some 0) g w all_rows = Some y"
        unfolding collect.simps [of e "Some 0" g w all_rows]
        using step IH l
        by (auto simp: limit_reached_def split: option.splits prod.splits signal.splits)
    qed
  qed
  then show ?thesis by simp
qed

lemma collect_zero: "collect e (Some 0) g w acc = collect e None g w acc"
proof (cases "collect e (Some 0) g w acc")
  case None
  show ?thesis
  proof (cases "collect e None g w acc")
    case None
    with \<open>collect e (Some 0) g w acc = None\<close> show ?thesis by simp
  next
    case (Some y)
    from collect_none_zero [OF this] \<open>collect e (Some 0) g w acc = None\<close>
    show ?thesis by simp
  qed
next
  case (Some y)
  from collect_zero_none [OF this] Some show ?thesis by simp
qed

text \<open>
  C10. In non-streaming mode, load_dataset_from_api with limit 0 is
  load_dataset_from_api with no limit: the same requests, the same rows or error, and
  the same failure to return when the backend keeps the generator running.
\<close>

theorem load_dataset_from_api_limit_zero:
  "load_dataset_from_api e ds token cols False (Some 0) offset w
     = load_dataset_from_api e ds token cols False None offset w"
  by (simp add: load_dataset_from_api_def page_size_for_def collect_zero)

theorem load_dataset_from_api_limit_zero_witness:
  "\<exists>rows w'.
     load_dataset_from_api demo_env ''demo-dataset-001'' ''demo-token'' None False (Some 0) 0 fresh_world
       = Some (Inr (Dataset rows), w')
     \<and> length rows = 3 \<and> length (decrypt_calls w') = 2"
proof -
  let ?g = "fetch_all_pages ''demo-dataset-001'' ''demo-token'' None
      (page_size_for (cfg demo_env) None) 0 :: nat generator"
  have "\<exists>rows w'. collect demo_env None ?g fresh_world [] = Some (Inr ([] @ rows), w')
           \<and> length (decrypt_calls w') = Suc 1
           \<and> int (length rows)
               = (\<Sum>k = length (decrypt_calls fresh_world)..<Suc 1. row_count_of (demo_pages k))"
  proof (rule collect_pages_all [where pages = demo_pages])
    show "has_more (demo_pages k) = Some True" if "length (decrypt_calls fresh_world) \<le> k" "k < 1" for k
      using that by (simp add: demo_env_facts)
  qed (simp_all add: demo_env_facts demo_pages_invariant fetch_all_pages_head)
  then obtain rows w' where "collect demo_env None ?g fresh_world [] = Some (Inr rows, w')"
      "length (decrypt_calls w') = 2" "length rows = 3"
    by (auto simp: demo_env_facts)
  then have "load_dataset_from_api demo_env ''demo-dataset-001'' ''demo-token'' None False None 0 fresh_world
       = Some (Inr (Dataset rows), w') \<and> length rows = 3 \<and> length (decrypt_calls w') = 2"
    by (simp add: load_dataset_from_api_def)
  then show ?thesis
    using load_dataset_from_api_limit_zero [of demo_env "''demo-dataset-001''" "''demo-token''"
        None 0 fresh_world]
    by auto
qed

subsection \<open>Export\<close>

lemma lower_csv: "lower ''CSV'' = ''csv''"
  by code_simp


text \<open>
  C3. When the dataset's num_rows is known and exceeds MAX_LOCAL_EXPORT_ROWS,
  export_data raises PolicyViolationError and the files are as they were: the check
  comes before every export path.
\<close>

theorem export_data_over_limit:
  assumes "num_rows d = Some n" and "n > MAX_LOCAL_EXPORT_ROWS c"
  shows "export_data c pandas d format path fs = (Inl PolicyViolationError, fs)"
  using assms by (simp add: export_data_def enforce_export_policy_def)

theorem export_data_over_limit_witness:
  "export_data demo_config (Some demo_pandas) big_dataset ''csv'' ''/tmp/out.csv'' Map.empty
     = (Inl PolicyViolationError, Map.empty)"
proof -
  have "num_rows big_dataset = Some 10001" by (simp add: big_dataset_def)
  moreover have "10001 > MAX_LOCAL_EXPORT_ROWS demo_config" by (simp add: demo_config_def)
  ultimately show ?thesis by (rule export_data_over_limit)
qed

lemma run_writer_no_policy: "fst (run_writer wr path fs) \<noteq> Inl PolicyViolationError"
  by (simp add: run_writer_def split: option.splits)

lemma export_paths_no_policy:
  "fst (export_paths pandas d format path fs) \<noteq> Inl PolicyViolationError"
  by (auto simp: export_paths_def Let_def run_writer_no_policy split: option.splits sum.splits)

text \<open>
  C9. When the object has no num_rows attribute, export_data is the export
  itself: whatever the ceiling, it does what the export paths do, and it does not raise
  PolicyViolationError.
\<close>

theorem export_data_unknown_rows:
  assumes "num_rows d = None"
  shows "export_data c pandas d format path fs = export_paths pandas d format path fs
       \<and> fst (export_data c pandas d format path fs) \<noteq> Inl PolicyViolationError"
  using assms export_paths_no_policy [of pandas d format path fs]
  by (simp add: export_data_def enforce_export_policy_def)

theorem export_data_unknown_rows_witness:
  "int (length [1, 2, 3 :: nat]) > MAX_LOCAL_EXPORT_ROWS (demo_config\<lparr>MAX_LOCAL_EXPORT_ROWS := 2\<rparr>)
   \<and> export_data (demo_config\<lparr>MAX_LOCAL_EXPORT_ROWS := 2\<rparr>) (Some demo_pandas) plain_rows
        ''CSV'' ''/tmp/out.csv'' Map.empty
     = (Inr (), [''/tmp/out.csv'' \<mapsto> ''rrr''])"
proof -
  have n: "num_rows plain_rows = None" by (simp add: plain_rows_def)
  have "export_paths (Some demo_pandas) plain_rows ''CSV'' ''/tmp/out.csv'' Map.empty
      = (Inr (), [''/tmp/out.csv'' \<mapsto> ''rrr''])"
    by (simp add: export_paths_def lower_csv plain_rows_def demo_pandas_def run_writer_def
        numeral_3_eq_3)
  with export_data_unknown_rows [OF n, of "demo_config\<lparr>MAX_LOCAL_EXPORT_ROWS := 2\<rparr>"
      "Some demo_pandas" "''CSV''" "''/tmp/out.csv''" Map.empty]
  show ?thesis by simp
qed

subsection \<open>Resumable download\<close>

lemma resumable_download_sent:
  "snd (snd (resumable_download srv url headers dest_path fs))
     = [HEAD url headers,
        GET url headers
          (if part_bytes fs dest_path \<noteq> [] \<and> supports_range (snd (http_head srv url headers))
           then Some (int (length (part_bytes fs dest_path))) else None)]"
  by (auto simp: resumable_download_def part_bytes_def http_head_def http_get_def Let_def
      split: option.splits get_outcome.splits stream_end.splits prod.splits)

lemma supports_range_probe:
  "supports_range (snd (http_head srv url headers))
     = (case on_head srv of
          HeadFailed \<Rightarrow> True
        | HeadOK status hs \<Rightarrow> contains ''bytes'' (accept_ranges hs) \<or> status = 200)"
  by (simp add: supports_range_def http_head_def accept_ranges_def split: head_outcome.splits)

text \<open>
  C2. Take the download whose GET carried the Range start rng (none for a plain GET) and
  was answered with a status and a body. The bytes written are appended to those of the
  .part file exactly when a Range was sent and the status is 206; otherwise they replace
  them. A Range is sent only for a non-empty .part file, from its size. When the body
  ends, the result is at the destination and the .part file is gone; when reading fails,
  what was written is in the .part file.
\<close>

theorem resumable_download_appends_iff_resumed:
  assumes "resumable_download srv url headers dest_path fs = (res, fs', [probe, GET u hs rng])"
    and "on_get srv rng = GetOK status content_length chunks ending"
  shows "(rng \<noteq> None \<longrightarrow>
            part_bytes fs dest_path \<noteq> [] \<and> rng = Some (int (length (part_bytes fs dest_path))))
       \<and> (ending = EndOfBody \<longrightarrow>
            res = Inr dest_path \<and> fs' (dest_path @ ''.part'') = None
            \<and> fs' dest_path
                = Some ((if rng \<noteq> None \<and> status = 206 then part_bytes fs dest_path else [])
                        @ concat chunks))
       \<and> (ending = ReadFailed \<longrightarrow>
            res = Inl LibraryError
            \<and> fs' (dest_path @ ''.part'')
                = Some ((if rng \<noteq> None \<and> status = 206 then part_bytes fs dest_path else [])
                        @ concat chunks))"
proof -
  let ?r = "if part_bytes fs dest_path \<noteq> [] \<and> supports_range (snd (http_head srv url headers))
            then Some (int (length (part_bytes fs dest_path))) else None"
  from assms(1) resumable_download_sent [of srv url headers dest_path fs]
  have rng: "rng = ?r" by simp
  have g: "on_get srv ?r = GetOK status content_length chunks ending"
    using assms(2) rng by simp
  have ne: "dest_path @ ''.part'' \<noteq> dest_path" by simp
  show ?thesis
    using assms(1) g rng ne
    by (cases ending)
      (auto simp: resumable_download_def part_bytes_def http_get_def http_head_def Let_def
        open_file_def split: option.splits if_splits prod.splits)
qed


lemma partial_files_part: "part_bytes partial_files ''/tmp/ds.bin'' = ''xyz''"
  by (simp add: part_bytes_def partial_files_def)

lemma silent_server_sent:
  "snd (snd (resumable_download silent_server ''http://host/ds.bin'' [] ''/tmp/ds.bin'' partial_files))
     = [HEAD ''http://host/ds.bin'' [], GET ''http://host/ds.bin'' [] (Some 3)]"
  by (simp add: resumable_download_sent supports_range_probe partial_files_part silent_server_def)

lemma ignoring_server_sent:
  "snd (snd (resumable_download ignoring_server ''http://host/ds.bin'' [] ''/tmp/ds.bin'' partial_files))
     = [HEAD ''http://host/ds.bin'' [], GET ''http://host/ds.bin'' [] (Some 3)]"
  by (simp add: resumable_download_sent supports_range_probe partial_files_part ignoring_server_def)

lemma breaking_server_sent:
  "snd (snd (resumable_download breaking_server ''http://host/ds.bin'' [] ''/tmp/ds.bin'' partial_files))
     = [HEAD ''http://host/ds.bin'' [], GET ''http://host/ds.bin'' [] (Some 3)]"
  by (simp add: resumable_download_sent supports_range_probe partial_files_part breaking_server_def)

theorem resumable_download_appends_iff_resumed_witness:
  "fst (snd (resumable_download silent_server ''http://host/ds.bin'' [] ''/tmp/ds.bin'' partial_files))
      ''/tmp/ds.bin'' = Some ''xyzdef''
   \<and> fst (snd (resumable_download ignoring_server ''http://host/ds.bin'' [] ''/tmp/ds.bin'' partial_files))
      ''/tmp/ds.bin'' = Some ''abcdef''
   \<and> fst (resumable_download breaking_server ''http://host/ds.bin'' [] ''/tmp/ds.bin'' partial_files)
      = Inl LibraryError
   \<and> fst (snd (resumable_download breaking_server ''http://host/ds.bin'' [] ''/tmp/ds.bin'' partial_files))
      ''/tmp/ds.bin.part'' = Some ''xyzde''"
proof -
  obtain res1 fs1 where r1:
    "resumable_download silent_server ''http://host/ds.bin'' [] ''/tmp/ds.bin'' partial_files
       = (res1, fs1, [HEAD ''http://host/ds.bin'' [], GET ''http://host/ds.bin'' [] (Some 3)])"
    using silent_server_sent
    by (cases "resumable_download silent_server ''http://host/ds.bin'' [] ''/tmp/ds.bin'' partial_files")
      auto
  have g1: "on_get silent_server (Some 3) = GetOK 206 (Some 3) [''def''] EndOfBody"
    by (simp add: silent_server_def)
  obtain res2 fs2 where r2:
    "resumable_download ignoring_server ''http://host/ds.bin'' [] ''/tmp/ds.bin'' partial_files
       = (res2, fs2, [HEAD ''http://host/ds.bin'' [], GET ''http://host/ds.bin'' [] (Some 3)])"
    using ignoring_server_sent
    by (cases "resumable_download ignoring_server ''http://host/ds.bin'' [] ''/tmp/ds.bin'' partial_files")
      auto
  have g2: "on_get ignoring_server (Some 3) = GetOK 200 (Some 6) [''abc'', ''def''] EndOfBody"
    by (simp add: ignoring_server_def)
  obtain res3 fs3 where r3:
    "resumable_download breaking_server ''http://host/ds.bin'' [] ''/tmp/ds.bin'' partial_files
       = (res3, fs3, [HEAD ''http://host/ds.bin'' [], GET ''http://host/ds.bin'' [] (Some 3)])"
    using breaking_server_sent
    by (cases "resumable_download breaking_server ''http://host/ds.bin'' [] ''/tmp/ds.bin'' partial_files")
      auto
  have g3: "on_get breaking_server (Some 3) = GetOK 206 None [''de''] ReadFailed"
    by (simp add: breaking_server_def)
  from resumable_download_appends_iff_resumed [OF r1 g1]
    resumable_download_appends_iff_resumed [OF r2 g2]
    resumable_download_appends_iff_resumed [OF r3 g3] r1 r2 r3
  show ?thesis by (simp add: partial_files_part)
qed

text \<open>
  C8, as amended. The download sends a HEAD and then one GET; the GET carries a Range header
  exactly when the .part file is not empty and range support is indicated, and then from the
  size of that file; range support is indicated when the probe failed, when its
  Accept-Ranges header contains "bytes", and also when its status is 200.
\<close>

theorem resumable_download_range_request:
  "snd (snd (resumable_download srv url headers dest_path fs))
     = [HEAD url headers,
        GET url headers
          (if part_bytes fs dest_path \<noteq> [] \<and> range_indicated srv
           then Some (int (length (part_bytes fs dest_path))) else None)]"
  by (simp add: resumable_download_sent supports_range_probe range_indicated_def)

theorem resumable_download_range_request_witness:
  "snd (snd (resumable_download ignoring_server ''http://host/ds.bin'' [] ''/tmp/ds.bin'' partial_files))
     = [HEAD ''http://host/ds.bin'' [], GET ''http://host/ds.bin'' [] (Some 3)]
   \<and> snd (snd (resumable_download ignoring_server ''http://host/ds.bin'' [] ''/tmp/ds.bin'' Map.empty))
     = [HEAD ''http://host/ds.bin'' [], GET ''http://host/ds.bin'' [] None]"
proof -
  have i: "range_indicated ignoring_server"
    by (simp add: range_indicated_def ignoring_server_def)
  have e: "part_bytes Map.empty ''/tmp/ds.bin'' = []"
    by (simp add: part_bytes_def)
  show ?thesis
    using resumable_download_range_request [of ignoring_server "''http://host/ds.bin''" "[]"
        "''/tmp/ds.bin''" partial_files]
      resumable_download_range_request [of ignoring_server "''http://host/ds.bin''" "[]"
        "''/tmp/ds.bin''" Map.empty]
    by (simp add: partial_files_part i e)
qed

lemma silent_server_no_bytes:
  "\<not> contains ''bytes'' (accept_ranges [(''Content-Type'', ''application/octet-stream'')])"
  by code_simp

text \<open>
  The claim C8 as stated fails: the probe succeeded and its headers have no Accept-Ranges
  value containing "bytes", yet the GET carries a Range header.
\<close>

theorem resumable_download_range_counterexample:
  "on_head silent_server = HeadOK 200 [(''Content-Type'', ''application/octet-stream'')]
   \<and> \<not> contains ''bytes'' (accept_ranges [(''Content-Type'', ''application/octet-stream'')])
   \<and> snd (snd (resumable_download silent_server ''http://host/ds.bin'' [] ''/tmp/ds.bin'' partial_files))
     = [HEAD ''http://host/ds.bin'' [], GET ''http://host/ds.bin'' [] (Some 3)]"
  using silent_server_no_bytes silent_server_sent by (simp add: silent_server_def)

end
